theory Spec2Isabelle
  imports Complex_Main "HOL-Library.AList"
begin

section \<open>Data model of the flow engine (src/gatevalve.js, AdvancedWaterFlowSystem)\<close>

text \<open>
  The engine is \<^verbatim>\<open>computeMultiTankBFS(tanks, pipelines)\<close> with its helpers
  \<^verbatim>\<open>getBlockingValve\<close> and \<^verbatim>\<open>distanceToSegment\<close>. JavaScript numbers that hold
  coordinates and distances are read as real numbers; pipeline ids are integers (the
  SQLite primary key), indices and counters are naturals.

  The geodesic distance \<^verbatim>\<open>this.map.distance\<close> belongs to the mapping library, not to this
  repository: every function below takes it as the parameter \<open>distance\<close>.
\<close>

record latlng =
  lat :: real
  lng :: real

text \<open>A pipeline row: \<^verbatim>\<open>pipeline.id\<close> and the node array \<^verbatim>\<open>JSON.parse(pipeline.nodes)\<close>.\<close>

record pipeline =
  pipeline_id :: int
  nodes :: "latlng list"

text \<open>Tanks and valves carry a name and a position; a valve also its \<^verbatim>\<open>isOpen\<close> flag.\<close>

record site =
  name :: string
  latitude :: real
  longitude :: real

type_synonym tank = site

record valve = site +
  isOpen :: bool

text \<open>A queue entry \<^verbatim>\<open>{ pipelineId, nodeIndex, sourceTank }\<close>.\<close>

record entry =
  pipelineId :: int
  nodeIndex :: nat
  sourceTank :: string

text \<open>The objects pushed to \<^verbatim>\<open>flowData.segments\<close> and \<^verbatim>\<open>flowData.blockedSegments\<close>,
  and the result object. The JavaScript \<^verbatim>\<open>Map\<close> \<^verbatim>\<open>pipelineStatus\<close> is an association list in
  insertion order; \<^verbatim>\<open>set\<close> on it is \<open>AList.update\<close>.\<close>

record flowing_segment =
  fs_pipelineId :: int
  fs_start :: latlng
  fs_end :: latlng
  fs_status :: string
  fs_sourceTank :: string

record blocked_segment =
  bs_pipelineId :: int
  bs_start :: latlng
  bs_end :: latlng
  bs_status :: string
  bs_blockedBy :: string

record flow_data =
  segments :: "flowing_segment list"
  blockedSegments :: "blocked_segment list"
  totalSegments :: int
  pipelineStatus :: "(int \<times> string) list"

text \<open>
  The local state of one computation. The three JavaScript \<^verbatim>\<open>Set\<close>s hold string keys
  \<^verbatim>\<open>`${pipelineId}-${i}-${i+1}`\<close> and \<^verbatim>\<open>`${pipelineId}-${nodeIndex}`\<close>; a key is
  determined by, and determines, the pair of its numbers, so a key is modelled as that
  pair. A \<^verbatim>\<open>Set\<close> keeps its elements in insertion order without repetition: a list
  extended by \<open>set_add\<close>.
\<close>

record bfs_state =
  flowData :: flow_data
  visitedSegments :: "(int \<times> nat) list"
  blockedSegmentsSet :: "(int \<times> nat) list"
  queue :: "entry list"
  visitedPipelineNodes :: "(int \<times> nat) list"
  iterations :: nat

definition set_add :: "'a \<Rightarrow> 'a list \<Rightarrow> 'a list" where
  "set_add x xs = (if x \<in> set xs then xs else xs @ [x])"

definition CONNECT_DISTANCE :: real where
  "CONNECT_DISTANCE = 50"

definition VALVE_BLOCK_DISTANCE :: real where
  "VALVE_BLOCK_DISTANCE = 15"

definition maxIterations :: nat where
  "maxIterations = 10000"

section \<open>Geometry\<close>

text \<open>\<^verbatim>\<open>distanceToSegment(point, segmentStart, segmentEnd)\<close>, lines 1131-1157.\<close>

definition distanceToSegment ::
  "(latlng \<Rightarrow> latlng \<Rightarrow> real) \<Rightarrow> latlng \<Rightarrow> latlng \<Rightarrow> latlng \<Rightarrow> real" where
  "distanceToSegment distance point segmentStart segmentEnd =
     (let A = lat point - lat segmentStart;
          B = lng point - lng segmentStart;
          C = lat segmentEnd - lat segmentStart;
          D = lng segmentEnd - lng segmentStart;
          dot = A * C + B * D;
          lenSq = C * C + D * D;
          param = (if lenSq \<noteq> 0 then dot / lenSq else - 1)
      in if param < 0 then distance point \<lparr>lat = lat segmentStart, lng = lng segmentStart\<rparr>
         else if param > 1 then distance point \<lparr>lat = lat segmentEnd, lng = lng segmentEnd\<rparr>
         else distance point \<lparr>lat = lat segmentStart + param * C,
                               lng = lng segmentStart + param * D\<rparr>)"

text \<open>The position object \<^verbatim>\<open>{ lat: x.latitude, lng: x.longitude }\<close> of a tank or valve.\<close>

definition position :: "'a site_scheme \<Rightarrow> latlng" where
  "position x = \<lparr>lat = latitude x, lng = longitude x\<rparr>"

section \<open>Valve blocking\<close>

text \<open>\<^verbatim>\<open>getBlockingValve(segmentStart, segmentEnd, closedValves, maxDistance)\<close>, lines
  1116-1129: the \<^verbatim>\<open>for ... of\<close> loop returns at the first valve under the threshold.\<close>

fun getBlockingValve ::
  "(latlng \<Rightarrow> latlng \<Rightarrow> real) \<Rightarrow> latlng \<Rightarrow> latlng \<Rightarrow> valve list \<Rightarrow> real \<Rightarrow> valve option" where
  "getBlockingValve distance segmentStart segmentEnd [] maxDistance = None"
| "getBlockingValve distance segmentStart segmentEnd (valve # rest) maxDistance =
     (if distanceToSegment distance (position valve) segmentStart segmentEnd < maxDistance
      then Some valve
      else getBlockingValve distance segmentStart segmentEnd rest maxDistance)"

text \<open>Lines 917-919: the closed valves of the global valve system, or none when the
  global is undefined (\<open>None\<close>).\<close>

definition closedValvesOf :: "valve list option \<Rightarrow> valve list" where
  "closedValvesOf gateValveSystem =
     (case gateValveSystem of
        Some valves \<Rightarrow> filter (\<lambda>v. \<not> isOpen v) valves
      | None \<Rightarrow> [])"

section \<open>Seeding (lines 929-970)\<close>

text \<open>The node loop: the first index whose node is within the connect distance of the
  tank (\<^verbatim>\<open>break\<close> after the first push).\<close>

definition connectNode :: "(latlng \<Rightarrow> latlng \<Rightarrow> real) \<Rightarrow> tank \<Rightarrow> latlng list \<Rightarrow> nat option" where
  "connectNode distance tank ns =
     find (\<lambda>idx. distance (position tank) (ns ! idx) < CONNECT_DISTANCE) [0..<length ns]"

text \<open>The segment loop: the first segment within the connect distance of the tank.\<close>

definition connectSegment :: "(latlng \<Rightarrow> latlng \<Rightarrow> real) \<Rightarrow> tank \<Rightarrow> latlng list \<Rightarrow> nat option" where
  "connectSegment distance tank ns =
     find (\<lambda>i. distanceToSegment distance (position tank) (ns ! i) (ns ! (i + 1)) < CONNECT_DISTANCE)
       [0..<length ns - 1]"

text \<open>The body of \<^verbatim>\<open>pipelines.forEach\<close> for one tank: what it pushes, in order.\<close>

definition seedPipeline :: "(latlng \<Rightarrow> latlng \<Rightarrow> real) \<Rightarrow> tank \<Rightarrow> pipeline \<Rightarrow> entry list" where
  "seedPipeline distance tank p =
     (case connectNode distance tank (nodes p) of
        None \<Rightarrow> []
      | Some idx \<Rightarrow> [\<lparr>pipelineId = pipeline_id p, nodeIndex = idx, sourceTank = name tank\<rparr>])
     @
     (case connectSegment distance tank (nodes p) of
        None \<Rightarrow> []
      | Some i \<Rightarrow> [\<lparr>pipelineId = pipeline_id p, nodeIndex = i, sourceTank = name tank\<rparr>])"

definition seedQueue :: "(latlng \<Rightarrow> latlng \<Rightarrow> real) \<Rightarrow> tank list \<Rightarrow> pipeline list \<Rightarrow> entry list" where
  "seedQueue distance tanks pipelines =
     concat (map (\<lambda>tank. concat (map (seedPipeline distance tank) pipelines)) tanks)"

section \<open>One dequeue of the breadth-first loop (lines 978-1102)\<close>

text \<open>The segment scan of the current pipeline, lines 992-1029, over the remaining
  indices: \<^verbatim>\<open>continue\<close> on a classified segment, \<^verbatim>\<open>break\<close> after a newly blocked one.\<close>

fun scanSegments ::
  "(latlng \<Rightarrow> latlng \<Rightarrow> real) \<Rightarrow> valve list \<Rightarrow> entry \<Rightarrow> latlng list \<Rightarrow> nat list \<Rightarrow> bfs_state \<Rightarrow> bfs_state" where
  "scanSegments distance closedValves current currentNodes [] st = st"
| "scanSegments distance closedValves current currentNodes (i # is) st =
     (let segmentKey = (pipelineId current, i) in
      if segmentKey \<in> set (visitedSegments st) \<or> segmentKey \<in> set (blockedSegmentsSet st)
      then scanSegments distance closedValves current currentNodes is st
      else
        (case getBlockingValve distance (currentNodes ! i) (currentNodes ! (i + 1))
                closedValves VALVE_BLOCK_DISTANCE of
           Some blockingValve \<Rightarrow>
             st\<lparr>blockedSegmentsSet := set_add segmentKey (blockedSegmentsSet st),
                flowData := (flowData st)\<lparr>blockedSegments := blockedSegments (flowData st) @
                  [\<lparr>bs_pipelineId = pipelineId current,
                    bs_start = currentNodes ! i,
                    bs_end = currentNodes ! (i + 1),
                    bs_status = ''blocked'',
                    bs_blockedBy = name blockingValve\<rparr>]\<rparr>\<rparr>
         | None \<Rightarrow>
             scanSegments distance closedValves current currentNodes is
               (st\<lparr>visitedSegments := set_add segmentKey (visitedSegments st),
                   flowData := (flowData st)\<lparr>segments := segments (flowData st) @
                     [\<lparr>fs_pipelineId = pipelineId current,
                       fs_start = currentNodes ! i,
                       fs_end = currentNodes ! (i + 1),
                       fs_status = ''flowing'',
                       fs_sourceTank = sourceTank current\<rparr>]\<rparr>\<rparr>)))"

text \<open>
  The connections from the current pipeline to one other pipeline, lines 1037-1100, as
  the list of entries pushed, in the order of the loops: for every current node the
  node-to-node matches and then the node-to-segment matches, and afterwards for every
  current segment the segment-to-node matches. A match is pushed unless its node key is
  in \<^verbatim>\<open>visitedPipelineNodes\<close>, which does not change while the loops run.
\<close>

definition connectionsTo ::
  "(latlng \<Rightarrow> latlng \<Rightarrow> real) \<Rightarrow> (int \<times> nat) list \<Rightarrow> entry \<Rightarrow> latlng list \<Rightarrow> pipeline \<Rightarrow> entry list" where
  "connectionsTo distance visitedNodes current currentNodes otherPipeline =
     (let otherNodes = nodes otherPipeline;
          push = (\<lambda>k. \<lparr>pipelineId = pipeline_id otherPipeline, nodeIndex = k,
                         sourceTank = sourceTank current\<rparr>);
          fresh = (\<lambda>k. (pipeline_id otherPipeline, k) \<notin> set visitedNodes)
      in concat (map (\<lambda>currentNode.
             map push (filter (\<lambda>otherIdx.
                 distance currentNode (otherNodes ! otherIdx) < CONNECT_DISTANCE \<and> fresh otherIdx)
               [0..<length otherNodes])
             @
             map push (filter (\<lambda>i.
                 distanceToSegment distance currentNode (otherNodes ! i) (otherNodes ! (i + 1))
                   < CONNECT_DISTANCE \<and> fresh i)
               [0..<length otherNodes - 1]))
           currentNodes)
         @
         concat (map (\<lambda>i.
             map push (filter (\<lambda>otherIdx.
                 distanceToSegment distance (otherNodes ! otherIdx) (currentNodes ! i)
                   (currentNodes ! (i + 1)) < CONNECT_DISTANCE \<and> fresh otherIdx)
               [0..<length otherNodes]))
           [0..<length currentNodes - 1]))"

text \<open>Lines 1034-1101: every pipeline with another id is examined, in list order.\<close>

definition connections ::
  "(latlng \<Rightarrow> latlng \<Rightarrow> real) \<Rightarrow> pipeline list \<Rightarrow> (int \<times> nat) list \<Rightarrow> entry \<Rightarrow> latlng list \<Rightarrow> entry list" where
  "connections distance pipelines visitedNodes current currentNodes =
     concat (map (\<lambda>otherPipeline.
         if pipeline_id otherPipeline = pipelineId current then []
         else connectionsTo distance visitedNodes current currentNodes otherPipeline)
       pipelines)"

text \<open>\<^verbatim>\<open>pipelines.find(p => p.id === current.pipelineId)\<close>: the first pipeline with the id.\<close>

definition findPipeline :: "pipeline list \<Rightarrow> int \<Rightarrow> pipeline option" where
  "findPipeline pipelines q = find (\<lambda>p. pipeline_id p = q) pipelines"

text \<open>The body of the \<^verbatim>\<open>while\<close> loop. The loop condition guarantees a non-empty queue;
  on an empty one \<^verbatim>\<open>queue.shift()\<close> would give \<^verbatim>\<open>undefined\<close>, a case that is never reached
  and is modelled as leaving the state as it is.\<close>

definition bfsIteration ::
  "(latlng \<Rightarrow> latlng \<Rightarrow> real) \<Rightarrow> pipeline list \<Rightarrow> valve list \<Rightarrow> bfs_state \<Rightarrow> bfs_state" where
  "bfsIteration distance pipelines closedValves st =
     (case queue st of
        [] \<Rightarrow> st\<lparr>iterations := iterations st + 1\<rparr>
      | current # rest \<Rightarrow>
          (let st1 = st\<lparr>iterations := iterations st + 1, queue := rest\<rparr> in
           case findPipeline pipelines (pipelineId current) of
             None \<Rightarrow> st1
           | Some currentPipeline \<Rightarrow>
               (let currentNodes = nodes currentPipeline;
                    nodeKey = (pipelineId current, nodeIndex current)
                in if nodeKey \<in> set (visitedPipelineNodes st1) then st1
                   else
                     (let st2 = st1\<lparr>visitedPipelineNodes := set_add nodeKey (visitedPipelineNodes st1)\<rparr>;
                          st3 = scanSegments distance closedValves current currentNodes
                                  [0..<length currentNodes - 1] st2;
                          st4 = st3\<lparr>flowData := (flowData st3)\<lparr>pipelineStatus :=
                                  AList.update (pipeline_id currentPipeline) ''flowing''
                                    (pipelineStatus (flowData st3))\<rparr>\<rparr>
                      in st4\<lparr>queue := queue st4 @
                            connections distance pipelines (visitedPipelineNodes st4)
                              current currentNodes\<rparr>))))"

section \<open>The loop and the whole computation\<close>

function bfsLoop ::
  "(latlng \<Rightarrow> latlng \<Rightarrow> real) \<Rightarrow> pipeline list \<Rightarrow> valve list \<Rightarrow> bfs_state \<Rightarrow> bfs_state" where
  "bfsLoop distance pipelines closedValves st =
     (if queue st \<noteq> [] \<and> iterations st < maxIterations
      then bfsLoop distance pipelines closedValves (bfsIteration distance pipelines closedValves st)
      else st)"
  by pat_completeness auto
termination
proof (relation "measure (\<lambda>(distance, pipelines, closedValves, st). maxIterations - iterations st)")
  show "wf (measure (\<lambda>(distance, pipelines, closedValves, st). maxIterations - iterations st))"
    by simp
next
  fix distance :: "latlng \<Rightarrow> latlng \<Rightarrow> real"
  fix pipelines :: "pipeline list" and closedValves :: "valve list" and st :: bfs_state
  assume run: "queue st \<noteq> [] \<and> iterations st < maxIterations"
  have scan: "iterations (scanSegments distance closedValves c ns is s) = iterations s"
    for c ns "is" s
    by (induction distance closedValves c ns "is" s rule: scanSegments.induct)
       (auto simp: Let_def split: option.splits)
  have "iterations (bfsIteration distance pipelines closedValves st) = iterations st + 1"
    by (auto simp: bfsIteration_def Let_def scan split: list.splits option.splits)
  with run show "((distance, pipelines, closedValves, bfsIteration distance pipelines closedValves st),
           (distance, pipelines, closedValves, st))
          \<in> measure (\<lambda>(distance, pipelines, closedValves, st). maxIterations - iterations st)"
    by auto
qed

declare bfsLoop.simps [simp del]

text \<open>The state before the loop: empty result, empty sets, the seeded queue.\<close>

definition initialState :: "(latlng \<Rightarrow> latlng \<Rightarrow> real) \<Rightarrow> tank list \<Rightarrow> pipeline list \<Rightarrow> bfs_state" where
  "initialState distance tanks pipelines =
     \<lparr>flowData = \<lparr>segments = [], blockedSegments = [], totalSegments = 0,
                   pipelineStatus = []\<rparr>,
      visitedSegments = [],
      blockedSegmentsSet = [],
      queue = seedQueue distance tanks pipelines,
      visitedPipelineNodes = [],
      iterations = 0\<rparr>"

text \<open>The state when the \<^verbatim>\<open>while\<close> loop is left.\<close>

definition finalState ::
  "(latlng \<Rightarrow> latlng \<Rightarrow> real) \<Rightarrow> valve list option \<Rightarrow> tank list \<Rightarrow> pipeline list \<Rightarrow> bfs_state" where
  "finalState distance gateValveSystem tanks pipelines =
     bfsLoop distance pipelines (closedValvesOf gateValveSystem)
       (initialState distance tanks pipelines)"

text \<open>Lines 1104-1107: \<^verbatim>\<open>nodes.length - 1\<close> is added for every pipeline.\<close>

definition countSegments :: "pipeline list \<Rightarrow> int" where
  "countSegments pipelines = foldl (\<lambda>total p. total + (int (length (nodes p)) - 1)) 0 pipelines"

definition computeMultiTankBFS ::
  "(latlng \<Rightarrow> latlng \<Rightarrow> real) \<Rightarrow> valve list option \<Rightarrow> tank list \<Rightarrow> pipeline list \<Rightarrow> flow_data" where
  "computeMultiTankBFS distance gateValveSystem tanks pipelines =
     (let st = finalState distance gateValveSystem tanks pipelines
      in (flowData st)\<lparr>totalSegments :=
            totalSegments (flowData st) + countSegments pipelines\<rparr>)"

section \<open>Notions used to state the properties\<close>

text \<open>
  A segment is identified by its pipeline id and its index, the pair that the segment
  keys of the code encode. \<open>flowingRecord\<close> says that \<open>r\<close> is the object the scan pushes to
  \<^verbatim>\<open>flowData.segments\<close> for the segment \<open>key\<close> (whatever its source tank), and that no
  closed valve blocks that segment; \<open>blockedRecord\<close> says that \<open>r\<close> is the object pushed to
  \<^verbatim>\<open>flowData.blockedSegments\<close> for \<open>key\<close>, named after the valve that
  \<open>getBlockingValve\<close> returns for it.
\<close>

definition flowingRecord ::
  "(latlng \<Rightarrow> latlng \<Rightarrow> real) \<Rightarrow> pipeline list \<Rightarrow> valve list \<Rightarrow> int \<times> nat \<Rightarrow> flowing_segment \<Rightarrow> bool" where
  "flowingRecord distance pipelines closedValves key r =
     (case findPipeline pipelines (fst key) of
        None \<Rightarrow> False
      | Some p \<Rightarrow>
          Suc (snd key) < length (nodes p) \<and>
          r = \<lparr>fs_pipelineId = fst key, fs_start = nodes p ! snd key,
               fs_end = nodes p ! Suc (snd key), fs_status = ''flowing'',
               fs_sourceTank = fs_sourceTank r\<rparr> \<and>
          getBlockingValve distance (nodes p ! snd key) (nodes p ! Suc (snd key))
            closedValves VALVE_BLOCK_DISTANCE = None)"

definition blockedRecord ::
  "(latlng \<Rightarrow> latlng \<Rightarrow> real) \<Rightarrow> pipeline list \<Rightarrow> valve list \<Rightarrow> int \<times> nat \<Rightarrow> blocked_segment \<Rightarrow> bool" where
  "blockedRecord distance pipelines closedValves key r =
     (case findPipeline pipelines (fst key) of
        None \<Rightarrow> False
      | Some p \<Rightarrow>
          Suc (snd key) < length (nodes p) \<and>
          (case getBlockingValve distance (nodes p ! snd key) (nodes p ! Suc (snd key))
                  closedValves VALVE_BLOCK_DISTANCE of
             None \<Rightarrow> False
           | Some v \<Rightarrow>
               r = \<lparr>bs_pipelineId = fst key, bs_start = nodes p ! snd key,
                    bs_end = nodes p ! Suc (snd key), bs_status = ''blocked'',
                    bs_blockedBy = name v\<rparr>))"

text \<open>The invariant of the loop that ties the two result lists to the two key sets.\<close>

definition recordsInv ::
  "(latlng \<Rightarrow> latlng \<Rightarrow> real) \<Rightarrow> pipeline list \<Rightarrow> valve list \<Rightarrow> bfs_state \<Rightarrow> bool" where
  "recordsInv distance pipelines closedValves st =
     (distinct (visitedSegments st) \<and> distinct (blockedSegmentsSet st) \<and>
      set (visitedSegments st) \<inter> set (blockedSegmentsSet st) = {} \<and>
      list_all2 (flowingRecord distance pipelines closedValves)
        (visitedSegments st) (segments (flowData st)) \<and>
      list_all2 (blockedRecord distance pipelines closedValves)
        (blockedSegmentsSet st) (blockedSegments (flowData st)))"

text \<open>
  The code has no adjacency function of its own; the proximity check is the body of the
  propagation loops. Pipeline \<open>b\<close> is found adjacent from \<open>a\<close> when, with no node visited
  yet, processing \<open>a\<close> pushes at least one entry for \<open>b\<close>.
\<close>

definition pipelinesAdjacent :: "(latlng \<Rightarrow> latlng \<Rightarrow> real) \<Rightarrow> pipeline \<Rightarrow> pipeline \<Rightarrow> bool" where
  "pipelinesAdjacent distance a b =
     (connections distance [b] []
        \<lparr>pipelineId = pipeline_id a, nodeIndex = 0, sourceTank = []\<rparr> (nodes a) \<noteq> [])"

text \<open>
  The key of a queue entry; the keys that processing a pipeline of id \<open>q\<close> and nodes \<open>ns\<close>
  pushes when no node is visited; and a set of keys that is closed under propagation.
\<close>

definition nodeKey :: "entry \<Rightarrow> int \<times> nat" where
  "nodeKey e = (pipelineId e, nodeIndex e)"

definition connectionKeys ::
  "(latlng \<Rightarrow> latlng \<Rightarrow> real) \<Rightarrow> pipeline list \<Rightarrow> int \<Rightarrow> latlng list \<Rightarrow> (int \<times> nat) set" where
  "connectionKeys distance pipelines q ns =
     nodeKey ` set (connections distance pipelines []
        \<lparr>pipelineId = q, nodeIndex = 0, sourceTank = []\<rparr> ns)"

definition closedUnder ::
  "(latlng \<Rightarrow> latlng \<Rightarrow> real) \<Rightarrow> pipeline list \<Rightarrow> (int \<times> nat) set \<Rightarrow> bool" where
  "closedUnder distance pipelines W =
     (\<forall>k\<in>W. \<forall>p. findPipeline pipelines (fst k) = Some p \<longrightarrow>
        connectionKeys distance pipelines (fst k) (nodes p) \<subseteq> W)"

text \<open>
  Whether a closed valve blocks segment \<open>i\<close> of \<open>p\<close>, how many blocked segments precede
  segment \<open>i\<close>, and how often the pipeline of id \<open>q\<close> has been scanned: once for each of
  its visited node keys. A segment is reached by the first \<open>m\<close> scans of its pipeline when
  fewer than \<open>m\<close> blocked segments precede it.
\<close>

definition blocks :: "(latlng \<Rightarrow> latlng \<Rightarrow> real) \<Rightarrow> valve list \<Rightarrow> pipeline \<Rightarrow> nat \<Rightarrow> bool" where
  "blocks distance closedValves p i =
     (getBlockingValve distance (nodes p ! i) (nodes p ! (i + 1)) closedValves
        VALVE_BLOCK_DISTANCE \<noteq> None)"

definition blocksBefore :: "(latlng \<Rightarrow> latlng \<Rightarrow> real) \<Rightarrow> valve list \<Rightarrow> pipeline \<Rightarrow> nat \<Rightarrow> nat" where
  "blocksBefore distance closedValves p i = length (filter (blocks distance closedValves p) [0..<i])"

definition scans :: "bfs_state \<Rightarrow> int \<Rightarrow> nat" where
  "scans st q = length (filter (\<lambda>k. fst k = q) (visitedPipelineNodes st))"

definition reached ::
  "(latlng \<Rightarrow> latlng \<Rightarrow> real) \<Rightarrow> pipeline list \<Rightarrow> valve list \<Rightarrow> nat \<Rightarrow> bool \<Rightarrow> int \<times> nat \<Rightarrow> bool" where
  "reached distance pipelines closedValves m b key =
     (case findPipeline pipelines (fst key) of
        None \<Rightarrow> False
      | Some p \<Rightarrow> Suc (snd key) < length (nodes p)
          \<and> blocks distance closedValves p (snd key) = b
          \<and> blocksBefore distance closedValves p (snd key) < m)"

definition scanInv ::
  "(latlng \<Rightarrow> latlng \<Rightarrow> real) \<Rightarrow> pipeline list \<Rightarrow> valve list \<Rightarrow> bfs_state \<Rightarrow> bool" where
  "scanInv distance pipelines closedValves st =
     (distinct (visitedPipelineNodes st)
      \<and> (\<forall>key. (key \<in> set (visitedSegments st))
            = reached distance pipelines closedValves (scans st (fst key)) False key)
      \<and> (\<forall>key. (key \<in> set (blockedSegmentsSet st))
            = reached distance pipelines closedValves (scans st (fst key)) True key))"

text \<open>While the loop runs, every seeded key is visited or waits in the queue, and so is
  every key that a visited key propagates to.\<close>

definition pendingInv ::
  "(latlng \<Rightarrow> latlng \<Rightarrow> real) \<Rightarrow> pipeline list \<Rightarrow> (int \<times> nat) set \<Rightarrow> bfs_state \<Rightarrow> bool" where
  "pendingInv distance pipelines S st =
     ((\<forall>e\<in>set (queue st). findPipeline pipelines (pipelineId e) \<noteq> None)
      \<and> S \<subseteq> set (visitedPipelineNodes st) \<union> nodeKey ` set (queue st)
      \<and> (\<forall>k\<in>set (visitedPipelineNodes st). \<forall>p. findPipeline pipelines (fst k) = Some p \<longrightarrow>
            connectionKeys distance pipelines (fst k) (nodes p)
              \<subseteq> set (visitedPipelineNodes st) \<union> nodeKey ` set (queue st)))"

section \<open>Concrete inputs for the closed examples\<close>

text \<open>
  The examples need a concrete distance. All their points lie on the meridian 78 E, where
  the geodesic distance is proportional to the difference of latitudes, about 111 km per
  degree. \<open>flatDistance\<close> is the taxicab distance at 111000 m per degree.
\<close>

definition flatDistance :: "latlng \<Rightarrow> latlng \<Rightarrow> real" where
  "flatDistance p q = 111000 * (\<bar>lat p - lat q\<bar> + \<bar>lng p - lng q\<bar>)"

text \<open>The scenario of the specification: a tank on node 0 of a pipeline of two segments,
  and a closed valve in the middle of segment 1.\<close>

definition exTank :: tank where
  "exTank = \<lparr>name = ''T'', latitude = 17, longitude = 78\<rparr>"

definition exPipeline :: pipeline where
  "exPipeline = \<lparr>pipeline_id = 1,
     nodes = [\<lparr>lat = 17, lng = 78\<rparr>, \<lparr>lat = 17.001, lng = 78\<rparr>, \<lparr>lat = 17.002, lng = 78\<rparr>]\<rparr>"

definition exValve :: valve where
  "exValve = \<lparr>name = ''V'', latitude = 17.0015, longitude = 78, isOpen = False\<rparr>"

text \<open>Three valves near segment 1: an open one on it, a closed one 11 m past its end and a
  closed one on it.\<close>

definition exValves :: "valve list" where
  "exValves =
     [\<lparr>name = ''V0'', latitude = 17.0012, longitude = 78, isOpen = True\<rparr>,
      \<lparr>name = ''V1'', latitude = 17.0021, longitude = 78, isOpen = False\<rparr>,
      \<lparr>name = ''V2'', latitude = 17.0015, longitude = 78, isOpen = False\<rparr>]"

text \<open>A tank on node 1 of the pipeline.\<close>

definition exTankMid :: tank where
  "exTankMid = \<lparr>name = ''M'', latitude = 17.001, longitude = 78\<rparr>"

text \<open>A second pipeline that starts 22 m past node 2 of the first, and a closed valve in
  the middle of segment 0 of the first.\<close>

definition exBranch :: pipeline where
  "exBranch = \<lparr>pipeline_id = 2,
     nodes = [\<lparr>lat = 17.0022, lng = 78\<rparr>, \<lparr>lat = 17.003, lng = 78\<rparr>]\<rparr>"

definition exValveFirst :: valve where
  "exValveFirst = \<lparr>name = ''W'', latitude = 17.0005, longitude = 78, isOpen = False\<rparr>"

text \<open>A pipeline row whose node array is empty.\<close>

definition exEmptyPipeline :: pipeline where
  "exEmptyPipeline = \<lparr>pipeline_id = 7, nodes = []\<rparr>"

text \<open>Three pipelines of one segment each joined end to end, with a tank on node 0 of the
  first; a degree of latitude away, two pipelines of a hundred nodes each, the nodes about
  11 cm apart, the second starting 22 m past the start of the first, with a tank on node
  0 of the first. The two dense pipelines come first in the pipeline list.\<close>

definition capTank :: tank where
  "capTank = \<lparr>name = ''A'', latitude = 20, longitude = 78\<rparr>"

definition capTankAdded :: tank where
  "capTankAdded = \<lparr>name = ''B'', latitude = 30, longitude = 78\<rparr>"

definition capFirst :: pipeline where
  "capFirst = \<lparr>pipeline_id = 11, nodes = [\<lparr>lat = 20, lng = 78\<rparr>, \<lparr>lat = 21, lng = 78\<rparr>]\<rparr>"

definition capSecond :: pipeline where
  "capSecond = \<lparr>pipeline_id = 12, nodes = [\<lparr>lat = 21, lng = 78\<rparr>, \<lparr>lat = 22, lng = 78\<rparr>]\<rparr>"

definition capThird :: pipeline where
  "capThird = \<lparr>pipeline_id = 13, nodes = [\<lparr>lat = 22, lng = 78\<rparr>, \<lparr>lat = 23, lng = 78\<rparr>]\<rparr>"

definition capDenseA :: pipeline where
  "capDenseA = \<lparr>pipeline_id = 14,
     nodes = map (\<lambda>j. \<lparr>lat = 30 + real j / 1000000, lng = 78\<rparr>) [0..<100]\<rparr>"

definition capDenseB :: pipeline where
  "capDenseB = \<lparr>pipeline_id = 15,
     nodes = map (\<lambda>j. \<lparr>lat = 30 + 2 / 10000 + real j / 1000000, lng = 78\<rparr>) [0..<100]\<rparr>"

definition capPipelines :: "pipeline list" where
  "capPipelines = [capDenseB, capDenseA, capFirst, capSecond, capThird]"

section \<open>Unfolding the loop\<close>

lemmas model_defs = finalState_def initialState_def seedQueue_def seedPipeline_def
  connectNode_def connectSegment_def closedValvesOf_def bfsIteration_def findPipeline_def
  connections_def connectionsTo_def distanceToSegment_def position_def set_add_def
  CONNECT_DISTANCE_def VALVE_BLOCK_DISTANCE_def maxIterations_def Let_def
  computeMultiTankBFS_def countSegments_def

lemmas example_defs = flatDistance_def exTank_def exPipeline_def exValve_def exValves_def
  exTankMid_def exBranch_def exValveFirst_def exEmptyPipeline_def

lemma bfsLoop_empty: "queue st = [] \<Longrightarrow> bfsLoop distance pipelines closedValves st = st"
  by (subst bfsLoop.simps) simp

lemma bfsLoop_capped:
  "\<not> iterations st < maxIterations \<Longrightarrow> bfsLoop distance pipelines closedValves st = st"
  by (subst bfsLoop.simps) simp

lemma bfsLoop_step:
  "queue st \<noteq> [] \<Longrightarrow> iterations st < maxIterations \<Longrightarrow>
   bfsLoop distance pipelines closedValves st =
   bfsLoop distance pipelines closedValves (bfsIteration distance pipelines closedValves st)"
  by (subst bfsLoop.simps) simp

text \<open>A property that holds before the loop and is kept by every iteration holds after it.\<close>

lemma bfsLoop_invariant:
  assumes "P st"
    and "\<And>s. P s \<Longrightarrow> queue s \<noteq> [] \<Longrightarrow> iterations s < maxIterations \<Longrightarrow>
           P (bfsIteration distance pipelines closedValves s)"
  shows "P (bfsLoop distance pipelines closedValves st)"
  using assms
proof (induction distance pipelines closedValves st rule: bfsLoop.induct)
  case (1 distance pipelines closedValves st)
  show ?case
  proof (cases "queue st \<noteq> [] \<and> iterations st < maxIterations")
    case True
    then have "P (bfsIteration distance pipelines closedValves st)"
      using "1.prems" by blast
    then have "P (bfsLoop distance pipelines closedValves
        (bfsIteration distance pipelines closedValves st))"
      using "1.IH" True "1.prems"(2) by blast
    then show ?thesis using True by (simp add: bfsLoop_step)
  next
    case False
    then show ?thesis using "1.prems"(1) bfsLoop_empty bfsLoop_capped by metis
  qed
qed

text \<open>The scan touches the two segment sets and the two result lists only.\<close>

lemma scanSegments_frame:
  "totalSegments (flowData (scanSegments distance closedValves cur ns is st))
     = totalSegments (flowData st)
   \<and> queue (scanSegments distance closedValves cur ns is st) = queue st
   \<and> iterations (scanSegments distance closedValves cur ns is st) = iterations st
   \<and> visitedPipelineNodes (scanSegments distance closedValves cur ns is st)
     = visitedPipelineNodes st
   \<and> pipelineStatus (flowData (scanSegments distance closedValves cur ns is st))
     = pipelineStatus (flowData st)"
  by (induction distance closedValves cur ns "is" st rule: scanSegments.induct)
     (auto simp: Let_def split: option.splits)

lemma bfsIteration_totalSegments:
  "totalSegments (flowData (bfsIteration distance pipelines closedValves st))
     = totalSegments (flowData st)"
  by (auto simp: bfsIteration_def Let_def scanSegments_frame split: list.splits option.splits)

lemma bfsIteration_iterations:
  "iterations (bfsIteration distance pipelines closedValves st) = Suc (iterations st)"
  by (auto simp: bfsIteration_def Let_def scanSegments_frame split: list.splits option.splits)

section \<open>The result lists and the key sets\<close>

lemma scanSegments_recordsInv:
  assumes "findPipeline pipelines (pipelineId cur) = Some p"
    and "\<forall>i\<in>set is. Suc i < length (nodes p)"
    and "recordsInv distance pipelines closedValves st"
  shows "recordsInv distance pipelines closedValves
           (scanSegments distance closedValves cur (nodes p) is st)"
  using assms(2,3)
proof (induction "is" arbitrary: st)
  case Nil
  then show ?case by simp
next
  case (Cons i "is")
  let ?key = "(pipelineId cur, i)"
  show ?case
  proof (cases "?key \<in> set (visitedSegments st) \<or> ?key \<in> set (blockedSegmentsSet st)")
    case True
    then show ?thesis using Cons by simp
  next
    case False
    have i: "Suc i < length (nodes p)" using Cons.prems(1) by simp
    show ?thesis
    proof (cases "getBlockingValve distance (nodes p ! i) (nodes p ! (i + 1))
                closedValves VALVE_BLOCK_DISTANCE")
      case None
      let ?st' = "st\<lparr>visitedSegments := set_add ?key (visitedSegments st),
                   flowData := (flowData st)\<lparr>segments := segments (flowData st) @
                     [\<lparr>fs_pipelineId = pipelineId cur,
                       fs_start = nodes p ! i,
                       fs_end = nodes p ! (i + 1),
                       fs_status = ''flowing'',
                       fs_sourceTank = sourceTank cur\<rparr>]\<rparr>\<rparr>"
      have "recordsInv distance pipelines closedValves ?st'"
        using Cons.prems(2) False None i assms(1)
        by (auto simp: recordsInv_def set_add_def flowingRecord_def intro!: list_all2_appendI)
      then have "recordsInv distance pipelines closedValves
           (scanSegments distance closedValves cur (nodes p) is ?st')"
        using Cons.IH Cons.prems(1) by simp
      then show ?thesis using False None by simp
    next
      case (Some v)
      then show ?thesis
        using Cons.prems(2) False i assms(1)
        by (auto simp: recordsInv_def set_add_def blockedRecord_def intro!: list_all2_appendI)
    qed
  qed
qed

lemma bfsIteration_recordsInv:
  assumes "recordsInv distance pipelines closedValves st"
  shows "recordsInv distance pipelines closedValves
           (bfsIteration distance pipelines closedValves st)"
proof (cases "queue st")
  case Nil
  then show ?thesis using assms by (simp add: bfsIteration_def recordsInv_def)
next
  case (Cons cur rest)
  show ?thesis
  proof (cases "findPipeline pipelines (pipelineId cur)")
    case None
    then show ?thesis using assms Cons by (simp add: bfsIteration_def recordsInv_def)
  next
    case (Some p)
    show ?thesis
    proof (cases "(pipelineId cur, nodeIndex cur) \<in> set (visitedPipelineNodes st)")
      case True
      then show ?thesis using assms Cons Some by (simp add: bfsIteration_def recordsInv_def)
    next
      case False
      let ?st2 = "st\<lparr>iterations := iterations st + 1, queue := rest,
          visitedPipelineNodes := set_add (pipelineId cur, nodeIndex cur) (visitedPipelineNodes st)\<rparr>"
      have "recordsInv distance pipelines closedValves ?st2"
        using assms by (simp add: recordsInv_def)
      then have "recordsInv distance pipelines closedValves
           (scanSegments distance closedValves cur (nodes p) [0..<length (nodes p) - 1] ?st2)"
        by (intro scanSegments_recordsInv[OF Some]) auto
      then show ?thesis using Cons Some False
        by (simp add: bfsIteration_def Let_def recordsInv_def)
    qed
  qed
qed

lemma finalState_recordsInv:
  "recordsInv distance pipelines (closedValvesOf gvs) (finalState distance gvs tanks pipelines)"
  unfolding finalState_def
proof (rule bfsLoop_invariant)
  show "recordsInv distance pipelines (closedValvesOf gvs) (initialState distance tanks pipelines)"
    by (simp add: initialState_def recordsInv_def)
next
  fix s
  assume "recordsInv distance pipelines (closedValvesOf gvs) s"
  then show "recordsInv distance pipelines (closedValvesOf gvs)
      (bfsIteration distance pipelines (closedValvesOf gvs) s)"
    by (rule bfsIteration_recordsInv)
qed

lemma computeMultiTankBFS_lists:
  "segments (computeMultiTankBFS distance gvs tanks pipelines)
     = segments (flowData (finalState distance gvs tanks pipelines))
   \<and> blockedSegments (computeMultiTankBFS distance gvs tanks pipelines)
     = blockedSegments (flowData (finalState distance gvs tanks pipelines))"
  by (simp add: computeMultiTankBFS_def Let_def)

lemma getBlockingValve_find:
  "getBlockingValve distance s e cvs m =
     find (\<lambda>v. distanceToSegment distance (position v) s e < m) cvs"
  by (induction cvs) auto

lemma find_filter: "find P (filter Q xs) = find (\<lambda>x. Q x \<and> P x) xs"
  by (induction xs) auto

section \<open>The examples, evaluated\<close>

lemma ex_finalState:
  "finalState flatDistance (Some [exValve]) [exTank] [exPipeline] =
     \<lparr>flowData =
        \<lparr>segments =
           [\<lparr>fs_pipelineId = 1, fs_start = \<lparr>lat = 17, lng = 78\<rparr>,
             fs_end = \<lparr>lat = 17.001, lng = 78\<rparr>,
             fs_status = ''flowing'', fs_sourceTank = ''T''\<rparr>],
         blockedSegments =
           [\<lparr>bs_pipelineId = 1, bs_start = \<lparr>lat = 17.001, lng = 78\<rparr>,
             bs_end = \<lparr>lat = 17.002, lng = 78\<rparr>,
             bs_status = ''blocked'', bs_blockedBy = ''V''\<rparr>],
         totalSegments = 0, pipelineStatus = [(1, ''flowing'')]\<rparr>,
      visitedSegments = [(1, 0)], blockedSegmentsSet = [(1, 1)],
      queue = [], visitedPipelineNodes = [(1, 0)],
      iterations = 2\<rparr>"
  by code_simp

lemma ex_result:
  "computeMultiTankBFS flatDistance (Some [exValve]) [exTank] [exPipeline] =
        \<lparr>segments =
           [\<lparr>fs_pipelineId = 1, fs_start = \<lparr>lat = 17, lng = 78\<rparr>,
             fs_end = \<lparr>lat = 17.001, lng = 78\<rparr>,
             fs_status = ''flowing'', fs_sourceTank = ''T''\<rparr>],
         blockedSegments =
           [\<lparr>bs_pipelineId = 1, bs_start = \<lparr>lat = 17.001, lng = 78\<rparr>,
             bs_end = \<lparr>lat = 17.002, lng = 78\<rparr>,
             bs_status = ''blocked'', bs_blockedBy = ''V''\<rparr>],
         totalSegments = 2, pipelineStatus = [(1, ''flowing'')]\<rparr>"
  unfolding computeMultiTankBFS_def ex_finalState Let_def
  by (simp add: countSegments_def exPipeline_def)

section \<open>Segment states\<close>

text \<open>
  C3. When the loop ends, the keys of the flowing segments and the keys of the blocked
  segments are two repetition-free collections with no key in common; the list of flowing
  objects is, position by position, the list of the flowing keys, and the list of blocked
  objects the list of the blocked keys. Hence a segment is flowing, blocked or in neither
  list, and no segment is listed twice.
\<close>

theorem segment_states_exclusive:
  "distinct (visitedSegments (finalState distance gvs tanks pipelines))
   \<and> distinct (blockedSegmentsSet (finalState distance gvs tanks pipelines))
   \<and> set (visitedSegments (finalState distance gvs tanks pipelines))
       \<inter> set (blockedSegmentsSet (finalState distance gvs tanks pipelines)) = {}
   \<and> list_all2 (flowingRecord distance pipelines (closedValvesOf gvs))
       (visitedSegments (finalState distance gvs tanks pipelines))
       (segments (computeMultiTankBFS distance gvs tanks pipelines))
   \<and> list_all2 (blockedRecord distance pipelines (closedValvesOf gvs))
       (blockedSegmentsSet (finalState distance gvs tanks pipelines))
       (blockedSegments (computeMultiTankBFS distance gvs tanks pipelines))"
  using finalState_recordsInv[of distance pipelines gvs tanks]
  by (simp add: recordsInv_def computeMultiTankBFS_lists)

theorem segment_states_exclusive_witness:
  "visitedSegments (finalState flatDistance (Some [exValve]) [exTank] [exPipeline]) = [(1, 0)]
   \<and> blockedSegmentsSet (finalState flatDistance (Some [exValve]) [exTank] [exPipeline]) = [(1, 1)]
   \<and> list_all2 (flowingRecord flatDistance [exPipeline] (closedValvesOf (Some [exValve])))
       [(1, 0)] (segments (computeMultiTankBFS flatDistance (Some [exValve]) [exTank] [exPipeline]))
   \<and> list_all2 (blockedRecord flatDistance [exPipeline] (closedValvesOf (Some [exValve])))
       [(1, 1)] (blockedSegments (computeMultiTankBFS flatDistance (Some [exValve]) [exTank] [exPipeline]))"
  using segment_states_exclusive[of flatDistance "Some [exValve]" "[exTank]" "[exPipeline]"]
  by (simp add: ex_finalState)

lemma list_all2_right_member:
  "list_all2 P xs ys \<Longrightarrow> y \<in> set ys \<Longrightarrow> \<exists>x\<in>set xs. P x y"
  by (induction rule: list_all2_induct) auto

lemma flowingRecord_facts:
  assumes "flowingRecord distance pipelines closedValves key r"
  shows "getBlockingValve distance (fs_start r) (fs_end r) closedValves VALVE_BLOCK_DISTANCE = None"
    and "\<exists>p. findPipeline pipelines (fs_pipelineId r) = Some p \<and> 2 \<le> length (nodes p)"
proof -
  obtain p where p: "findPipeline pipelines (fst key) = Some p"
      "Suc (snd key) < length (nodes p)"
      "r = \<lparr>fs_pipelineId = fst key, fs_start = nodes p ! snd key,
               fs_end = nodes p ! Suc (snd key), fs_status = ''flowing'',
               fs_sourceTank = fs_sourceTank r\<rparr>"
      "getBlockingValve distance (nodes p ! snd key) (nodes p ! Suc (snd key))
            closedValves VALVE_BLOCK_DISTANCE = None"
    using assms by (auto simp: flowingRecord_def split: option.splits)
  have sel: "fs_pipelineId r = fst key" "fs_start r = nodes p ! snd key"
      "fs_end r = nodes p ! Suc (snd key)"
    by (subst p(3), simp)+
  show "getBlockingValve distance (fs_start r) (fs_end r) closedValves VALVE_BLOCK_DISTANCE = None"
    using p(4) sel by simp
  show "\<exists>p. findPipeline pipelines (fs_pipelineId r) = Some p \<and> 2 \<le> length (nodes p)"
    using p(1,2) sel by auto
qed

lemma blockedRecord_facts:
  assumes "blockedRecord distance pipelines closedValves key r"
  shows "\<exists>v. getBlockingValve distance (bs_start r) (bs_end r) closedValves VALVE_BLOCK_DISTANCE
            = Some v \<and> bs_blockedBy r = name v"
    and "\<exists>p. findPipeline pipelines (bs_pipelineId r) = Some p \<and> 2 \<le> length (nodes p)"
proof -
  obtain p v where p: "findPipeline pipelines (fst key) = Some p"
      "Suc (snd key) < length (nodes p)"
      "getBlockingValve distance (nodes p ! snd key) (nodes p ! Suc (snd key))
            closedValves VALVE_BLOCK_DISTANCE = Some v"
      "r = \<lparr>bs_pipelineId = fst key, bs_start = nodes p ! snd key,
                    bs_end = nodes p ! Suc (snd key), bs_status = ''blocked'',
                    bs_blockedBy = name v\<rparr>"
    using assms by (auto simp: blockedRecord_def split: option.splits)
  show "\<exists>v. getBlockingValve distance (bs_start r) (bs_end r) closedValves VALVE_BLOCK_DISTANCE
            = Some v \<and> bs_blockedBy r = name v"
    using p(3,4) by simp
  show "\<exists>p. findPipeline pipelines (bs_pipelineId r) = Some p \<and> 2 \<le> length (nodes p)"
    using p(1,2,4) by auto
qed

lemma flowing_member:
  assumes "r \<in> set (segments (computeMultiTankBFS distance gvs tanks pipelines))"
  shows "\<exists>key. flowingRecord distance pipelines (closedValvesOf gvs) key r"
  using finalState_recordsInv[of distance pipelines gvs tanks] assms
    list_all2_right_member[of "flowingRecord distance pipelines (closedValvesOf gvs)" _ _ r]
  unfolding recordsInv_def computeMultiTankBFS_lists[THEN conjunct1]
  by blast

lemma blocked_member:
  assumes "r \<in> set (blockedSegments (computeMultiTankBFS distance gvs tanks pipelines))"
  shows "\<exists>key. blockedRecord distance pipelines (closedValvesOf gvs) key r"
  using finalState_recordsInv[of distance pipelines gvs tanks] assms
    list_all2_right_member[of "blockedRecord distance pipelines (closedValvesOf gvs)" _ _ r]
  unfolding recordsInv_def computeMultiTankBFS_lists[THEN conjunct2]
  by blast

section \<open>Geometric soundness of the classification\<close>

text \<open>
  C10. Every object in the blocked list carries the name of a closed valve whose distance
  to that segment, as \<open>distanceToSegment\<close> computes it, is under the block distance of
  15, and no closed valve is that near to a segment of an object in the flowing list.
\<close>

theorem classification_sound:
  "VALVE_BLOCK_DISTANCE = 15
   \<and> (\<forall>r\<in>set (blockedSegments (computeMultiTankBFS distance gvs tanks pipelines)).
        \<exists>v\<in>set (closedValvesOf gvs). bs_blockedBy r = name v \<and>
          distanceToSegment distance (position v) (bs_start r) (bs_end r) < VALVE_BLOCK_DISTANCE)
   \<and> (\<forall>r\<in>set (segments (computeMultiTankBFS distance gvs tanks pipelines)).
        \<forall>v\<in>set (closedValvesOf gvs).
          \<not> distanceToSegment distance (position v) (fs_start r) (fs_end r) < VALVE_BLOCK_DISTANCE)"
proof (intro conjI ballI)
  show "VALVE_BLOCK_DISTANCE = 15" by (simp add: VALVE_BLOCK_DISTANCE_def)
next
  fix r assume "r \<in> set (blockedSegments (computeMultiTankBFS distance gvs tanks pipelines))"
  then obtain key where "blockedRecord distance pipelines (closedValvesOf gvs) key r"
    using blocked_member by blast
  then obtain v where
    v: "getBlockingValve distance (bs_start r) (bs_end r) (closedValvesOf gvs) VALVE_BLOCK_DISTANCE
          = Some v" "bs_blockedBy r = name v"
    using blockedRecord_facts(1) by blast
  from v(1) have "v \<in> set (closedValvesOf gvs)
      \<and> distanceToSegment distance (position v) (bs_start r) (bs_end r) < VALVE_BLOCK_DISTANCE"
    unfolding getBlockingValve_find by (auto simp: find_Some_iff)
  with v(2) show "\<exists>v\<in>set (closedValvesOf gvs). bs_blockedBy r = name v \<and>
          distanceToSegment distance (position v) (bs_start r) (bs_end r) < VALVE_BLOCK_DISTANCE"
    by blast
next
  fix r v
  assume "r \<in> set (segments (computeMultiTankBFS distance gvs tanks pipelines))"
    and v: "v \<in> set (closedValvesOf gvs)"
  then obtain key where "flowingRecord distance pipelines (closedValvesOf gvs) key r"
    using flowing_member by blast
  then have "getBlockingValve distance (fs_start r) (fs_end r) (closedValvesOf gvs)
      VALVE_BLOCK_DISTANCE = None"
    by (rule flowingRecord_facts(1))
  then show "\<not> distanceToSegment distance (position v) (fs_start r) (fs_end r) < VALVE_BLOCK_DISTANCE"
    unfolding getBlockingValve_find using v by (simp add: find_None_iff)
qed

theorem classification_sound_witness:
  "blockedSegments (computeMultiTankBFS flatDistance (Some [exValve]) [exTank] [exPipeline])
     = [\<lparr>bs_pipelineId = 1, bs_start = \<lparr>lat = 17.001, lng = 78\<rparr>,
          bs_end = \<lparr>lat = 17.002, lng = 78\<rparr>, bs_status = ''blocked'', bs_blockedBy = ''V''\<rparr>]
   \<and> name exValve = ''V''
   \<and> distanceToSegment flatDistance (position exValve)
        \<lparr>lat = 17.001, lng = 78\<rparr> \<lparr>lat = 17.002, lng = 78\<rparr> < 15
   \<and> segments (computeMultiTankBFS flatDistance (Some [exValve]) [exTank] [exPipeline])
     = [\<lparr>fs_pipelineId = 1, fs_start = \<lparr>lat = 17, lng = 78\<rparr>,
          fs_end = \<lparr>lat = 17.001, lng = 78\<rparr>, fs_status = ''flowing'', fs_sourceTank = ''T''\<rparr>]
   \<and> \<not> distanceToSegment flatDistance (position exValve)
        \<lparr>lat = 17, lng = 78\<rparr> \<lparr>lat = 17.001, lng = 78\<rparr> < 15"
  using classification_sound[of flatDistance "Some [exValve]" "[exTank]" "[exPipeline]"]
  unfolding ex_result
  by (simp add: closedValvesOf_def exValve_def distanceToSegment_def position_def
      flatDistance_def VALVE_BLOCK_DISTANCE_def)

section \<open>The blocking valve of a segment\<close>

text \<open>
  C5. \<open>getBlockingValve\<close> returns the first valve of the list it is given whose distance to
  the segment is under the threshold, and none when there is no such valve; the list the
  engine passes holds the valves with \<open>isOpen\<close> false only, so the result is the first
  valve of the valve collection that is closed and under the threshold, and an open valve
  is never returned. Nothing compares the distances of two valves.
\<close>

theorem getBlockingValve_first_closed:
  "getBlockingValve distance s e closedValves maxDistance
     = find (\<lambda>v. distanceToSegment distance (position v) s e < maxDistance) closedValves
   \<and> getBlockingValve distance s e (closedValvesOf (Some valves)) maxDistance
     = find (\<lambda>v. \<not> isOpen v \<and> distanceToSegment distance (position v) s e < maxDistance) valves
   \<and> getBlockingValve distance s e (closedValvesOf None) maxDistance = None
   \<and> ((getBlockingValve distance s e (closedValvesOf (Some valves)) maxDistance = None)
        = (\<forall>v\<in>set valves. isOpen v \<or>
             \<not> distanceToSegment distance (position v) s e < maxDistance))"
  by (auto simp: getBlockingValve_find find_filter closedValvesOf_def find_None_iff)

theorem getBlockingValve_first_closed_witness:
  "getBlockingValve flatDistance \<lparr>lat = 17.001, lng = 78\<rparr> \<lparr>lat = 17.002, lng = 78\<rparr>
      (closedValvesOf (Some exValves)) 15 = Some (exValves ! 1)
   \<and> distanceToSegment flatDistance (position (exValves ! 0))
        \<lparr>lat = 17.001, lng = 78\<rparr> \<lparr>lat = 17.002, lng = 78\<rparr> = 0
   \<and> isOpen (exValves ! 0)
   \<and> distanceToSegment flatDistance (position (exValves ! 2))
        \<lparr>lat = 17.001, lng = 78\<rparr> \<lparr>lat = 17.002, lng = 78\<rparr>
      < distanceToSegment flatDistance (position (exValves ! 1))
        \<lparr>lat = 17.001, lng = 78\<rparr> \<lparr>lat = 17.002, lng = 78\<rparr>
   \<and> getBlockingValve flatDistance \<lparr>lat = 17, lng = 78\<rparr> \<lparr>lat = 17.0005, lng = 78\<rparr>
      (closedValvesOf (Some exValves)) 15 = None"
proof -
  have ex: "getBlockingValve flatDistance \<lparr>lat = 17.001, lng = 78\<rparr> \<lparr>lat = 17.002, lng = 78\<rparr>
      (closedValvesOf (Some exValves)) 15 = Some (exValves ! 1)
   \<and> distanceToSegment flatDistance (position (exValves ! 0))
        \<lparr>lat = 17.001, lng = 78\<rparr> \<lparr>lat = 17.002, lng = 78\<rparr> = 0
   \<and> isOpen (exValves ! 0)
   \<and> distanceToSegment flatDistance (position (exValves ! 2))
        \<lparr>lat = 17.001, lng = 78\<rparr> \<lparr>lat = 17.002, lng = 78\<rparr>
      < distanceToSegment flatDistance (position (exValves ! 1))
        \<lparr>lat = 17.001, lng = 78\<rparr> \<lparr>lat = 17.002, lng = 78\<rparr>"
    by (simp add: exValves_def closedValvesOf_def distanceToSegment_def position_def
        flatDistance_def)
  have none: "\<forall>v\<in>set exValves. isOpen v \<or>
      \<not> distanceToSegment flatDistance (position v)
          \<lparr>lat = 17, lng = 78\<rparr> \<lparr>lat = 17.0005, lng = 78\<rparr> < 15"
    by (simp add: exValves_def distanceToSegment_def position_def flatDistance_def)
  show ?thesis
    using getBlockingValve_first_closed[of flatDistance "\<lparr>lat = 17, lng = 78\<rparr>"
      "\<lparr>lat = 17.0005, lng = 78\<rparr>" "closedValvesOf (Some exValves)" 15 exValves] ex none
    by blast
qed

section \<open>Symmetry of the proximity check\<close>

lemma concat_map_empty_iff: "concat (map f xs) = [] \<longleftrightarrow> (\<forall>x\<in>set xs. f x = [])"
  by (induction xs) auto

lemma ex_index_iff: "(\<exists>j\<in>{0..<length xs}. P (xs ! j)) \<longleftrightarrow> (\<exists>x\<in>set xs. P x)"
proof
  assume "\<exists>j\<in>{0..<length xs}. P (xs ! j)"
  then obtain j where "j < length xs" "P (xs ! j)" by auto
  then show "\<exists>x\<in>set xs. P x" using nth_mem by blast
next
  assume "\<exists>x\<in>set xs. P x"
  then obtain x where "x \<in> set xs" "P x" by blast
  then obtain j where "j < length xs" "xs ! j = x" by (auto simp: in_set_conv_nth)
  with \<open>P x\<close> show "\<exists>j\<in>{0..<length xs}. P (xs ! j)" by auto
qed

text \<open>With no node visited, the loops push something exactly when one of the three
  checks succeeds.\<close>

lemma connectionsTo_nonempty_iff:
  "connectionsTo distance [] cur ns other \<noteq> [] \<longleftrightarrow>
     (\<exists>c\<in>set ns. \<exists>x\<in>set (nodes other). distance c x < CONNECT_DISTANCE)
   \<or> (\<exists>c\<in>set ns. \<exists>j\<in>{0..<length (nodes other) - 1}.
         distanceToSegment distance c (nodes other ! j) (nodes other ! (j + 1)) < CONNECT_DISTANCE)
   \<or> (\<exists>i\<in>{0..<length ns - 1}. \<exists>x\<in>set (nodes other).
         distanceToSegment distance x (ns ! i) (ns ! (i + 1)) < CONNECT_DISTANCE)"
proof -
  have "connectionsTo distance [] cur ns other \<noteq> [] \<longleftrightarrow>
     (\<exists>c\<in>set ns. \<exists>j\<in>{0..<length (nodes other)}. distance c (nodes other ! j) < CONNECT_DISTANCE)
   \<or> (\<exists>c\<in>set ns. \<exists>j\<in>{0..<length (nodes other) - 1}.
         distanceToSegment distance c (nodes other ! j) (nodes other ! (j + 1)) < CONNECT_DISTANCE)
   \<or> (\<exists>i\<in>{0..<length ns - 1}. \<exists>j\<in>{0..<length (nodes other)}.
         distanceToSegment distance (nodes other ! j) (ns ! i) (ns ! (i + 1)) < CONNECT_DISTANCE)"
    unfolding connectionsTo_def Let_def
    by (simp add: concat_map_empty_iff filter_empty_conv) blast
  moreover have "(\<exists>j\<in>{0..<length (nodes other)}. distance c (nodes other ! j) < CONNECT_DISTANCE)
      \<longleftrightarrow> (\<exists>x\<in>set (nodes other). distance c x < CONNECT_DISTANCE)" for c
    by (rule ex_index_iff [of "nodes other" "\<lambda>x. distance c x < CONNECT_DISTANCE"])
  moreover have "(\<exists>j\<in>{0..<length (nodes other)}.
        distanceToSegment distance (nodes other ! j) (ns ! i) (ns ! (i + 1)) < CONNECT_DISTANCE)
      \<longleftrightarrow> (\<exists>x\<in>set (nodes other).
        distanceToSegment distance x (ns ! i) (ns ! (i + 1)) < CONNECT_DISTANCE)" for i
    by (rule ex_index_iff [of "nodes other"
          "\<lambda>x. distanceToSegment distance x (ns ! i) (ns ! (i + 1)) < CONNECT_DISTANCE"])
  ultimately show ?thesis
    by simp
qed

lemma pipelinesAdjacent_iff:
  "pipelinesAdjacent distance a b \<longleftrightarrow> pipeline_id b \<noteq> pipeline_id a \<and>
    ((\<exists>c\<in>set (nodes a). \<exists>x\<in>set (nodes b). distance c x < CONNECT_DISTANCE)
   \<or> (\<exists>c\<in>set (nodes a). \<exists>j\<in>{0..<length (nodes b) - 1}.
         distanceToSegment distance c (nodes b ! j) (nodes b ! (j + 1)) < CONNECT_DISTANCE)
   \<or> (\<exists>i\<in>{0..<length (nodes a) - 1}. \<exists>x\<in>set (nodes b).
         distanceToSegment distance x (nodes a ! i) (nodes a ! (i + 1)) < CONNECT_DISTANCE))"
  unfolding pipelinesAdjacent_def connections_def
  using connectionsTo_nonempty_iff[of distance _ "nodes a" b]
  by auto

text \<open>
  C7. The node-to-node, node-to-segment and segment-to-node checks together find \<open>b\<close>
  adjacent from \<open>a\<close> exactly when they find \<open>a\<close> adjacent from \<open>b\<close>, for a distance
  function that is symmetric in its two points.
\<close>

theorem adjacency_symmetric:
  assumes sym: "\<And>p q. distance p q = distance q p"
  shows "pipelinesAdjacent distance a b = pipelinesAdjacent distance b a"
proof -
  have nn: "(\<exists>c\<in>set (nodes a). \<exists>x\<in>set (nodes b). distance c x < CONNECT_DISTANCE)
      \<longleftrightarrow> (\<exists>c\<in>set (nodes b). \<exists>x\<in>set (nodes a). distance c x < CONNECT_DISTANCE)"
    using sym by metis
  have "pipeline_id b \<noteq> pipeline_id a \<longleftrightarrow> pipeline_id a \<noteq> pipeline_id b"
    by auto
  then show ?thesis
    unfolding pipelinesAdjacent_iff nn by (simp only:) blast
qed

theorem adjacency_symmetric_witness:
  "(\<forall>p q. flatDistance p q = flatDistance q p)
   \<and> pipelinesAdjacent flatDistance exPipeline exBranch
   \<and> pipelinesAdjacent flatDistance exBranch exPipeline
   \<and> pipelinesAdjacent flatDistance exPipeline exEmptyPipeline
       = pipelinesAdjacent flatDistance exEmptyPipeline exPipeline"
proof -
  have sym: "flatDistance p q = flatDistance q p" for p q
    by (simp add: flatDistance_def abs_minus_commute)
  have "pipelinesAdjacent flatDistance exPipeline exBranch"
    by (simp add: pipelinesAdjacent_def model_defs example_defs)
  then show ?thesis
    using adjacency_symmetric[of flatDistance exPipeline exBranch]
      adjacency_symmetric[of flatDistance exPipeline exEmptyPipeline] sym
    by simp
qed

section \<open>The total segment count\<close>

lemma countSegments_sum:
  "countSegments pipelines = (\<Sum>p\<leftarrow>pipelines. int (length (nodes p)) - 1)"
proof -
  have "foldl (\<lambda>total p. total + (int (length (nodes p)) - 1)) a pipelines
      = a + (\<Sum>p\<leftarrow>pipelines. int (length (nodes p)) - 1)" for a
    by (induction pipelines arbitrary: a) auto
  then show ?thesis by (simp add: countSegments_def)
qed

lemma finalState_totalSegments:
  "totalSegments (flowData (finalState distance gvs tanks pipelines)) = 0"
  unfolding finalState_def
proof (rule bfsLoop_invariant)
  show "totalSegments (flowData (initialState distance tanks pipelines)) = 0"
    by (simp add: initialState_def)
qed (simp add: bfsIteration_totalSegments)

lemma computeMultiTankBFS_totalSegments:
  "totalSegments (computeMultiTankBFS distance gvs tanks pipelines)
     = (\<Sum>p\<leftarrow>pipelines. int (length (nodes p)) - 1)"
  by (simp add: computeMultiTankBFS_def Let_def finalState_totalSegments countSegments_sum)

lemma ex_with_empty_finalState:
  "finalState flatDistance (Some [exValve]) [exTank] [exPipeline, exEmptyPipeline] =
     \<lparr>flowData =
        \<lparr>segments =
           [\<lparr>fs_pipelineId = 1, fs_start = \<lparr>lat = 17, lng = 78\<rparr>,
             fs_end = \<lparr>lat = 17.001, lng = 78\<rparr>,
             fs_status = ''flowing'', fs_sourceTank = ''T''\<rparr>],
         blockedSegments =
           [\<lparr>bs_pipelineId = 1, bs_start = \<lparr>lat = 17.001, lng = 78\<rparr>,
             bs_end = \<lparr>lat = 17.002, lng = 78\<rparr>,
             bs_status = ''blocked'', bs_blockedBy = ''V''\<rparr>],
         totalSegments = 0, pipelineStatus = [(1, ''flowing'')]\<rparr>,
      visitedSegments = [(1, 0)], blockedSegmentsSet = [(1, 1)],
      queue = [], visitedPipelineNodes = [(1, 0)],
      iterations = 2\<rparr>"
  by code_simp

text \<open>
  C6, as the claim states it, fails: a pipeline with an empty node array adds \<open>- 1\<close> to the
  total, so the total of the two-segment pipeline and an empty one is 1, where the claimed
  sum of \<open>max 0 (nodeCount - 1)\<close> is 2.
\<close>

theorem totalSegments_empty_pipeline_counterexample:
  "totalSegments (computeMultiTankBFS flatDistance (Some [exValve]) [exTank]
       [exPipeline, exEmptyPipeline]) = 1
   \<and> (\<Sum>p\<leftarrow>[exPipeline, exEmptyPipeline]. max 0 (int (length (nodes p)) - 1)) = 2"
  unfolding computeMultiTankBFS_def ex_with_empty_finalState Let_def
  by (simp add: countSegments_def exPipeline_def exEmptyPipeline_def)

text \<open>
  C6, amended. When every pipeline has at least one node, the total is the sum over all
  pipelines of \<open>max 0 (nodeCount - 1)\<close>, tanks and valves playing no part; and every object
  of the flowing and of the blocked list belongs to a pipeline of at least two nodes, so a
  pipeline with fewer than two nodes contributes no flowing and no blocked segment.
\<close>

theorem totalSegments_sum:
  "((\<forall>p\<in>set pipelines. nodes p \<noteq> []) \<longrightarrow>
      totalSegments (computeMultiTankBFS distance gvs tanks pipelines)
        = (\<Sum>p\<leftarrow>pipelines. max 0 (int (length (nodes p)) - 1)))
   \<and> (\<forall>r\<in>set (segments (computeMultiTankBFS distance gvs tanks pipelines)).
        \<exists>p. findPipeline pipelines (fs_pipelineId r) = Some p \<and> 2 \<le> length (nodes p))
   \<and> (\<forall>r\<in>set (blockedSegments (computeMultiTankBFS distance gvs tanks pipelines)).
        \<exists>p. findPipeline pipelines (bs_pipelineId r) = Some p \<and> 2 \<le> length (nodes p))"
proof (intro conjI impI ballI)
  assume nonempty: "\<forall>p\<in>set pipelines. nodes p \<noteq> []"
  have "(\<Sum>p\<leftarrow>pipelines. int (length (nodes p)) - 1)
      = (\<Sum>p\<leftarrow>pipelines. max 0 (int (length (nodes p)) - 1))"
    using nonempty
  proof (induction pipelines)
    case Nil
    then show ?case by simp
  next
    case (Cons p ps)
    then have "length (nodes p) \<noteq> 0" by simp
    then have "int (length (nodes p)) - 1 = max 0 (int (length (nodes p)) - 1)" by linarith
    with Cons show ?case by simp
  qed
  then show "totalSegments (computeMultiTankBFS distance gvs tanks pipelines)
        = (\<Sum>p\<leftarrow>pipelines. max 0 (int (length (nodes p)) - 1))"
    by (simp add: computeMultiTankBFS_totalSegments)
next
  fix r assume "r \<in> set (segments (computeMultiTankBFS distance gvs tanks pipelines))"
  then obtain key where "flowingRecord distance pipelines (closedValvesOf gvs) key r"
    using flowing_member by blast
  then show "\<exists>p. findPipeline pipelines (fs_pipelineId r) = Some p \<and> 2 \<le> length (nodes p)"
    by (rule flowingRecord_facts(2))
next
  fix r assume "r \<in> set (blockedSegments (computeMultiTankBFS distance gvs tanks pipelines))"
  then obtain key where "blockedRecord distance pipelines (closedValvesOf gvs) key r"
    using blocked_member by blast
  then show "\<exists>p. findPipeline pipelines (bs_pipelineId r) = Some p \<and> 2 \<le> length (nodes p)"
    by (rule blockedRecord_facts(2))
qed

theorem totalSegments_sum_witness:
  "nodes exPipeline \<noteq> []
   \<and> totalSegments (computeMultiTankBFS flatDistance (Some [exValve]) [exTank] [exPipeline]) = 2
   \<and> (\<Sum>p\<leftarrow>[exPipeline]. max 0 (int (length (nodes p)) - 1)) = 2
   \<and> map fs_pipelineId
        (segments (computeMultiTankBFS flatDistance (Some [exValve]) [exTank] [exPipeline])) = [1]
   \<and> map bs_pipelineId
        (blockedSegments (computeMultiTankBFS flatDistance (Some [exValve]) [exTank] [exPipeline])) = [1]
   \<and> findPipeline [exPipeline] 1 = Some exPipeline
   \<and> length (nodes exPipeline) = 3"
  using totalSegments_sum[of "[exPipeline]" flatDistance "Some [exValve]" "[exTank]"]
  unfolding ex_result
  by (simp add: exPipeline_def findPipeline_def)

section \<open>Termination of the loop\<close>

lemma bfsLoop_trace:
  "\<exists>n. bfsLoop distance pipelines closedValves st
          = ((bfsIteration distance pipelines closedValves) ^^ n) st
      \<and> iterations st + n \<le> max maxIterations (iterations st)
      \<and> (\<forall>k<n. queue (((bfsIteration distance pipelines closedValves) ^^ k) st) \<noteq> [])
      \<and> (queue (bfsLoop distance pipelines closedValves st) = [] \<or> maxIterations \<le> iterations st + n)"
proof (induction distance pipelines closedValves st rule: bfsLoop.induct)
  case (1 distance pipelines closedValves st)
  let ?it = "bfsIteration distance pipelines closedValves"
  show ?case
  proof (cases "queue st \<noteq> [] \<and> iterations st < maxIterations")
    case True
    from "1.IH"[OF True] obtain n where
      n: "bfsLoop distance pipelines closedValves (?it st) = (?it ^^ n) (?it st)"
         "iterations (?it st) + n \<le> max maxIterations (iterations (?it st))"
         "\<forall>k<n. queue ((?it ^^ k) (?it st)) \<noteq> []"
         "queue (bfsLoop distance pipelines closedValves (?it st)) = [] \<or>
            maxIterations \<le> iterations (?it st) + n"
      by blast
    have eq: "bfsLoop distance pipelines closedValves st
        = bfsLoop distance pipelines closedValves (?it st)"
      using True by (simp add: bfsLoop_step)
    have "bfsLoop distance pipelines closedValves st = (?it ^^ Suc n) st"
      using n(1) eq by (simp add: funpow_swap1)
    moreover have "iterations st + Suc n \<le> max maxIterations (iterations st)"
      using n(2) True by (simp add: bfsIteration_iterations)
    moreover have "\<forall>k<Suc n. queue ((?it ^^ k) st) \<noteq> []"
    proof (intro allI impI)
      fix k assume "k < Suc n"
      show "queue ((?it ^^ k) st) \<noteq> []"
      proof (cases k)
        case 0
        then show ?thesis using True by simp
      next
        case (Suc j)
        then have "j < n" using \<open>k < Suc n\<close> by simp
        then show ?thesis using n(3) Suc by (simp add: funpow_swap1)
      qed
    qed
    moreover have "queue (bfsLoop distance pipelines closedValves st) = [] \<or>
         maxIterations \<le> iterations st + Suc n"
      using n(4) eq by (simp add: bfsIteration_iterations)
    ultimately show ?thesis by blast
  next
    case False
    then have "bfsLoop distance pipelines closedValves st = st"
      using bfsLoop_empty bfsLoop_capped by metis
    then show ?thesis using False
      by (intro exI[of _ 0]) auto
  qed
qed

text \<open>
  C8. For every input the loop stops: the state it leaves is the state after \<open>n\<close> runs of
  its body from the seeded state, for some \<open>n\<close> of at most 10000; the queue was non-empty
  before each of these runs, and at the end the queue is empty or \<open>n\<close> is 10000. The
  function then returns, without any error value, the lists accumulated in that state,
  and the total it adds is the count over all pipelines whether or not the cap was reached.
\<close>

theorem bfs_terminates_within_cap:
  "maxIterations = 10000
   \<and> (\<exists>n\<le>maxIterations.
        finalState distance gvs tanks pipelines
          = ((bfsIteration distance pipelines (closedValvesOf gvs)) ^^ n)
              (initialState distance tanks pipelines)
        \<and> (\<forall>k<n. queue (((bfsIteration distance pipelines (closedValvesOf gvs)) ^^ k)
              (initialState distance tanks pipelines)) \<noteq> [])
        \<and> (queue (finalState distance gvs tanks pipelines) = [] \<or> n = maxIterations))
   \<and> computeMultiTankBFS distance gvs tanks pipelines
       = (flowData (finalState distance gvs tanks pipelines))
           \<lparr>totalSegments := (\<Sum>p\<leftarrow>pipelines. int (length (nodes p)) - 1)\<rparr>"
proof (intro conjI)
  show "maxIterations = 10000" by (simp add: maxIterations_def)
next
  let ?it = "bfsIteration distance pipelines (closedValvesOf gvs)"
  let ?init = "initialState distance tanks pipelines"
  obtain n where n: "bfsLoop distance pipelines (closedValvesOf gvs) ?init = (?it ^^ n) ?init"
      "iterations ?init + n \<le> max maxIterations (iterations ?init)"
      "\<forall>k<n. queue ((?it ^^ k) ?init) \<noteq> []"
      "queue (bfsLoop distance pipelines (closedValvesOf gvs) ?init) = []
         \<or> maxIterations \<le> iterations ?init + n"
    using bfsLoop_trace[of distance pipelines "closedValvesOf gvs" ?init] by blast
  have zero: "iterations ?init = 0" by (simp add: initialState_def)
  have "n \<le> maxIterations" using n(2) zero by simp
  moreover have "queue (finalState distance gvs tanks pipelines) = [] \<or> n = maxIterations"
    using n(4) zero \<open>n \<le> maxIterations\<close> by (auto simp: finalState_def)
  ultimately show "\<exists>n\<le>maxIterations.
        finalState distance gvs tanks pipelines = (?it ^^ n) ?init
        \<and> (\<forall>k<n. queue ((?it ^^ k) ?init) \<noteq> [])
        \<and> (queue (finalState distance gvs tanks pipelines) = [] \<or> n = maxIterations)"
    using n(1,3) unfolding finalState_def by blast
next
  show "computeMultiTankBFS distance gvs tanks pipelines
       = (flowData (finalState distance gvs tanks pipelines))
           \<lparr>totalSegments := (\<Sum>p\<leftarrow>pipelines. int (length (nodes p)) - 1)\<rparr>"
    by (simp add: computeMultiTankBFS_def Let_def finalState_totalSegments countSegments_sum)
qed

theorem bfs_terminates_within_cap_witness:
  "iterations (finalState flatDistance (Some [exValve]) [exTank] [exPipeline]) = 2
   \<and> queue (finalState flatDistance (Some [exValve]) [exTank] [exPipeline]) = []
   \<and> finalState flatDistance (Some [exValve]) [exTank] [exPipeline]
       = ((bfsIteration flatDistance [exPipeline] (closedValvesOf (Some [exValve]))) ^^ 2)
           (initialState flatDistance [exTank] [exPipeline])
   \<and> queue (initialState flatDistance [exTank] [exPipeline]) \<noteq> []
   \<and> queue (bfsIteration flatDistance [exPipeline] (closedValvesOf (Some [exValve]))
        (initialState flatDistance [exTank] [exPipeline])) \<noteq> []
   \<and> totalSegments (computeMultiTankBFS flatDistance (Some [exValve]) [exTank] [exPipeline]) = 2"
proof -
  have run: "((bfsIteration flatDistance [exPipeline] (closedValvesOf (Some [exValve]))) ^^ 2)
           (initialState flatDistance [exTank] [exPipeline])
      = finalState flatDistance (Some [exValve]) [exTank] [exPipeline]"
    unfolding ex_finalState
    by (simp add: numeral_2_eq_2 model_defs example_defs)
  have q: "queue (initialState flatDistance [exTank] [exPipeline]) \<noteq> []
    \<and> queue (bfsIteration flatDistance [exPipeline] (closedValvesOf (Some [exValve]))
        (initialState flatDistance [exTank] [exPipeline])) \<noteq> []"
    by (simp add: model_defs example_defs)
  show ?thesis
    using bfs_terminates_within_cap[of flatDistance "Some [exValve]" "[exTank]" "[exPipeline]"]
      run q
    by (simp add: ex_finalState ex_result)
qed

section \<open>Seeding\<close>

lemma find_upt_Some:
  "find P [0..<n] = Some k \<Longrightarrow> k < n \<and> P k \<and> (\<forall>j<k. \<not> P j)"
  by (auto simp: find_Some_iff)

text \<open>
  C2, as the claim states it, fails: for the tank on node 1 of the example pipeline the
  node loop pushes node 1 and the segment loop pushes segment 0, two entries with
  different node indices for one tank and one pipeline.
\<close>

theorem seeding_two_entry_points_counterexample:
  "seedPipeline flatDistance exTankMid exPipeline
     = [\<lparr>pipelineId = 1, nodeIndex = 1, sourceTank = ''M''\<rparr>,
        \<lparr>pipelineId = 1, nodeIndex = 0, sourceTank = ''M''\<rparr>]
   \<and> seedQueue flatDistance [exTankMid] [exPipeline]
     = [\<lparr>pipelineId = 1, nodeIndex = 1, sourceTank = ''M''\<rparr>,
        \<lparr>pipelineId = 1, nodeIndex = 0, sourceTank = ''M''\<rparr>]"
  by (simp add: model_defs example_defs)

text \<open>
  C2, amended. For every tank and every pipeline the seeding pushes at most two entries,
  all with the pipeline's id and the tank's name: first the entry of the first node within
  the connect distance of the tank, if there is such a node, then the entry of the first
  segment within the connect distance, if there is such a segment. The seeded queue holds
  exactly these entries, so at most two for each pair of a tank and a pipeline.
\<close>

theorem seeding_at_most_two_entries:
  "(\<exists>ns ss.
      seedPipeline distance tank p
        = map (\<lambda>k. \<lparr>pipelineId = pipeline_id p, nodeIndex = k, sourceTank = name tank\<rparr>)
            (ns @ ss)
      \<and> length ns \<le> 1 \<and> length ss \<le> 1
      \<and> (\<forall>k\<in>set ns. k < length (nodes p)
            \<and> distance (position tank) (nodes p ! k) < CONNECT_DISTANCE
            \<and> (\<forall>j<k. \<not> distance (position tank) (nodes p ! j) < CONNECT_DISTANCE))
      \<and> (ns = [] \<longrightarrow>
            (\<forall>j<length (nodes p). \<not> distance (position tank) (nodes p ! j) < CONNECT_DISTANCE))
      \<and> (\<forall>k\<in>set ss. k < length (nodes p) - 1
            \<and> distanceToSegment distance (position tank) (nodes p ! k) (nodes p ! (k + 1))
                 < CONNECT_DISTANCE
            \<and> (\<forall>j<k. \<not> distanceToSegment distance (position tank) (nodes p ! j)
                 (nodes p ! (j + 1)) < CONNECT_DISTANCE))
      \<and> (ss = [] \<longrightarrow>
            (\<forall>j<length (nodes p) - 1. \<not> distanceToSegment distance (position tank)
                 (nodes p ! j) (nodes p ! (j + 1)) < CONNECT_DISTANCE)))
   \<and> length (seedPipeline distance tank p) \<le> 2
   \<and> set (seedQueue distance tanks pipelines)
       = (\<Union>t\<in>set tanks. \<Union>q\<in>set pipelines. set (seedPipeline distance t q))
   \<and> length (seedQueue distance tanks pipelines) \<le> 2 * (length tanks * length pipelines)"
proof -
  let ?P = "\<lambda>j. distance (position tank) (nodes p ! j) < CONNECT_DISTANCE"
  let ?Q = "\<lambda>j. distanceToSegment distance (position tank) (nodes p ! j) (nodes p ! (j + 1))
               < CONNECT_DISTANCE"
  let ?mk = "\<lambda>k. \<lparr>pipelineId = pipeline_id p, nodeIndex = k, sourceTank = name tank\<rparr>"
  define ns where "ns = (case connectNode distance tank (nodes p) of None \<Rightarrow> [] | Some k \<Rightarrow> [k])"
  define ss where "ss = (case connectSegment distance tank (nodes p) of None \<Rightarrow> [] | Some k \<Rightarrow> [k])"
  have eq: "seedPipeline distance tank p = map ?mk (ns @ ss)"
    by (simp add: seedPipeline_def ns_def ss_def split: option.splits)
  have lens: "length ns \<le> 1" "length ss \<le> 1"
    by (simp_all add: ns_def ss_def split: option.splits)
  have n1: "\<forall>k\<in>set ns. k < length (nodes p) \<and> ?P k \<and> (\<forall>j<k. \<not> ?P j)"
  proof (cases "connectNode distance tank (nodes p)")
    case None
    then show ?thesis by (simp add: ns_def)
  next
    case (Some k)
    from find_upt_Some[OF Some[unfolded connectNode_def]] Some
    show ?thesis by (simp add: ns_def)
  qed
  have n2: "ns = [] \<longrightarrow> (\<forall>j<length (nodes p). \<not> ?P j)"
  proof (cases "connectNode distance tank (nodes p)")
    case None
    then show ?thesis by (simp add: connectNode_def find_None_iff)
  next
    case (Some k)
    then show ?thesis by (simp add: ns_def)
  qed
  have s1: "\<forall>k\<in>set ss. k < length (nodes p) - 1 \<and> ?Q k \<and> (\<forall>j<k. \<not> ?Q j)"
  proof (cases "connectSegment distance tank (nodes p)")
    case None
    then show ?thesis by (simp add: ss_def)
  next
    case (Some k)
    from find_upt_Some[OF Some[unfolded connectSegment_def]] Some
    show ?thesis by (simp add: ss_def)
  qed
  have s2: "ss = [] \<longrightarrow> (\<forall>j<length (nodes p) - 1. \<not> ?Q j)"
  proof (cases "connectSegment distance tank (nodes p)")
    case None
    then show ?thesis by (simp add: connectSegment_def find_None_iff)
  next
    case (Some k)
    then show ?thesis by (simp add: ss_def)
  qed
  have first: "\<exists>ns ss. seedPipeline distance tank p = map ?mk (ns @ ss)
      \<and> length ns \<le> 1 \<and> length ss \<le> 1
      \<and> (\<forall>k\<in>set ns. k < length (nodes p) \<and> ?P k \<and> (\<forall>j<k. \<not> ?P j))
      \<and> (ns = [] \<longrightarrow> (\<forall>j<length (nodes p). \<not> ?P j))
      \<and> (\<forall>k\<in>set ss. k < length (nodes p) - 1 \<and> ?Q k \<and> (\<forall>j<k. \<not> ?Q j))
      \<and> (ss = [] \<longrightarrow> (\<forall>j<length (nodes p) - 1. \<not> ?Q j))"
    by (intro exI[of _ ns] exI[of _ ss] conjI eq lens n1 n2 s1 s2)
  have len: "length (seedPipeline distance t q) \<le> 2" for t q
    by (simp add: seedPipeline_def split: option.splits)
  have inner: "length (concat (map (seedPipeline distance t) ps)) \<le> 2 * length ps" for t ps
  proof (induction ps)
    case Nil
    then show ?case by simp
  next
    case (Cons q ps)
    then show ?case using len[of t q] by simp
  qed
  have whole: "length (seedQueue distance tanks pipelines) \<le> 2 * (length tanks * length pipelines)"
    unfolding seedQueue_def
  proof (induction tanks)
    case Nil
    then show ?case by simp
  next
    case (Cons t ts)
    then show ?case using inner[of t pipelines] by simp
  qed
  have members: "set (seedQueue distance tanks pipelines)
       = (\<Union>t\<in>set tanks. \<Union>q\<in>set pipelines. set (seedPipeline distance t q))"
    by (auto simp: seedQueue_def)
  show ?thesis
    by (intro conjI first len members whole)
qed

theorem seeding_at_most_two_entries_witness:
  "seedPipeline flatDistance exTank exPipeline
     = [\<lparr>pipelineId = 1, nodeIndex = 0, sourceTank = ''T''\<rparr>,
        \<lparr>pipelineId = 1, nodeIndex = 0, sourceTank = ''T''\<rparr>]
   \<and> length (seedPipeline flatDistance exTank exPipeline) \<le> 2
   \<and> flatDistance (position exTank) (nodes exPipeline ! 0) < CONNECT_DISTANCE
   \<and> distanceToSegment flatDistance (position exTank) (nodes exPipeline ! 0)
        (nodes exPipeline ! 1) < CONNECT_DISTANCE
   \<and> length (seedQueue flatDistance [exTank] [exPipeline, exBranch]) = 2"
proof -
  have ex: "seedPipeline flatDistance exTank exPipeline
     = [\<lparr>pipelineId = 1, nodeIndex = 0, sourceTank = ''T''\<rparr>,
        \<lparr>pipelineId = 1, nodeIndex = 0, sourceTank = ''T''\<rparr>]
    \<and> length (seedQueue flatDistance [exTank] [exPipeline, exBranch]) = 2
    \<and> flatDistance (position exTank) (nodes exPipeline ! 0) < CONNECT_DISTANCE
    \<and> distanceToSegment flatDistance (position exTank) (nodes exPipeline ! 0)
        (nodes exPipeline ! 1) < CONNECT_DISTANCE"
    by (simp add: model_defs example_defs)
  show ?thesis
    using seeding_at_most_two_entries[of flatDistance exTank exPipeline "[exTank]"
        "[exPipeline, exBranch]"] ex
    by blast
qed

section \<open>The scan of one pipeline\<close>

text \<open>A run of unclassified segments that no closed valve blocks is marked flowing, in
  order, and the scan goes on behind it.\<close>

lemma scanSegments_flowing_run:
  assumes "distinct js"
    and "\<forall>j\<in>set js. (pipelineId cur, j) \<notin> set (visitedSegments st)
          \<and> (pipelineId cur, j) \<notin> set (blockedSegmentsSet st)
          \<and> getBlockingValve distance (ns ! j) (ns ! (j + 1)) closedValves
                VALVE_BLOCK_DISTANCE = None"
  shows "scanSegments distance closedValves cur ns (js @ rest) st
     = scanSegments distance closedValves cur ns rest
         (st\<lparr>visitedSegments := visitedSegments st @ map (Pair (pipelineId cur)) js,
             flowData := (flowData st)\<lparr>segments := segments (flowData st) @
               map (\<lambda>j. \<lparr>fs_pipelineId = pipelineId cur, fs_start = ns ! j,
                          fs_end = ns ! (j + 1), fs_status = ''flowing'',
                          fs_sourceTank = sourceTank cur\<rparr>) js\<rparr>\<rparr>)"
  using assms
proof (induction js arbitrary: st)
  case Nil
  then show ?case by simp
next
  case (Cons j js)
  let ?st' = "st\<lparr>visitedSegments := set_add (pipelineId cur, j) (visitedSegments st),
                 flowData := (flowData st)\<lparr>segments := segments (flowData st) @
                   [\<lparr>fs_pipelineId = pipelineId cur, fs_start = ns ! j,
                     fs_end = ns ! (j + 1), fs_status = ''flowing'',
                     fs_sourceTank = sourceTank cur\<rparr>]\<rparr>\<rparr>"
  have step: "scanSegments distance closedValves cur ns ((j # js) @ rest) st
      = scanSegments distance closedValves cur ns (js @ rest) ?st'"
    using Cons.prems(2) by simp
  have "distinct js" using Cons.prems(1) by simp
  moreover have "\<forall>i\<in>set js. (pipelineId cur, i) \<notin> set (visitedSegments ?st')
          \<and> (pipelineId cur, i) \<notin> set (blockedSegmentsSet ?st')
          \<and> getBlockingValve distance (ns ! i) (ns ! (i + 1)) closedValves
                VALVE_BLOCK_DISTANCE = None"
    using Cons.prems by (auto simp: set_add_def)
  ultimately have "scanSegments distance closedValves cur ns (js @ rest) ?st'
      = scanSegments distance closedValves cur ns rest
         (?st'\<lparr>visitedSegments := visitedSegments ?st' @ map (Pair (pipelineId cur)) js,
             flowData := (flowData ?st')\<lparr>segments := segments (flowData ?st') @
               map (\<lambda>j. \<lparr>fs_pipelineId = pipelineId cur, fs_start = ns ! j,
                          fs_end = ns ! (j + 1), fs_status = ''flowing'',
                          fs_sourceTank = sourceTank cur\<rparr>) js\<rparr>\<rparr>)"
    by (rule Cons.IH)
  then show ?case
    using step Cons.prems(2) by (simp add: set_add_def)
qed

text \<open>At an unclassified segment that a closed valve blocks the scan records the block
  and stops.\<close>

lemma scanSegments_block:
  assumes "(pipelineId cur, k) \<notin> set (visitedSegments st)"
    and "(pipelineId cur, k) \<notin> set (blockedSegmentsSet st)"
    and "getBlockingValve distance (ns ! k) (ns ! (k + 1)) closedValves
           VALVE_BLOCK_DISTANCE = Some v"
  shows "scanSegments distance closedValves cur ns (k # rest) st
     = st\<lparr>blockedSegmentsSet := blockedSegmentsSet st @ [(pipelineId cur, k)],
          flowData := (flowData st)\<lparr>blockedSegments := blockedSegments (flowData st) @
            [\<lparr>bs_pipelineId = pipelineId cur, bs_start = ns ! k, bs_end = ns ! (k + 1),
              bs_status = ''blocked'', bs_blockedBy = name v\<rparr>]\<rparr>\<rparr>"
  using assms by (simp add: set_add_def)

lemma connections_same_id:
  "\<forall>p\<in>set pipelines. pipeline_id p = pipelineId cur \<Longrightarrow>
     connections distance pipelines visited cur ns = []"
  by (simp add: connections_def concat_map_empty_iff)

section \<open>A closed valve on a single pipeline\<close>

text \<open>
  C1. Take one pipeline of node list \<open>ns\<close>, with segment \<open>k\<close> among its segments, a valve
  collection in which the closed valve \<open>bv\<close> is within the block distance of segment \<open>k\<close>
  and no closed valve is within the block distance of any other segment or, apart from
  \<open>bv\<close>, of segment \<open>k\<close>, and one active tank within the connect distance of node 0 whose
  segment scan matches at segment 0 or nowhere (the tank connects at node 0). Then the
  flowing list is exactly the segments \<open>0..k-1\<close> in order, attributed to the tank, the
  blocked list is exactly segment \<open>k\<close> with the name of \<open>bv\<close>, and the segments behind
  \<open>k\<close> are in neither list.
\<close>

theorem blocking_cuts_downstream:
  assumes k: "k < length ns - 1"
    and bv: "bv \<in> set valves" "\<not> isOpen bv"
    and near: "\<forall>v\<in>set valves. \<forall>j<length ns - 1. \<not> isOpen v \<longrightarrow>
        (distanceToSegment distance (position v) (ns ! j) (ns ! (j + 1)) < VALVE_BLOCK_DISTANCE)
          = (v = bv \<and> j = k)"
    and tank: "distance (position tank) (ns ! 0) < CONNECT_DISTANCE"
    and entry: "connectSegment distance tank ns = None \<or> connectSegment distance tank ns = Some 0"
  shows "visitedSegments (finalState distance (Some valves) [tank] [\<lparr>pipeline_id = q, nodes = ns\<rparr>])
       = map (Pair q) [0..<k]
   \<and> blockedSegmentsSet (finalState distance (Some valves) [tank] [\<lparr>pipeline_id = q, nodes = ns\<rparr>])
       = [(q, k)]
   \<and> segments (computeMultiTankBFS distance (Some valves) [tank] [\<lparr>pipeline_id = q, nodes = ns\<rparr>])
       = map (\<lambda>j. \<lparr>fs_pipelineId = q, fs_start = ns ! j, fs_end = ns ! (j + 1),
                    fs_status = ''flowing'', fs_sourceTank = name tank\<rparr>) [0..<k]
   \<and> blockedSegments (computeMultiTankBFS distance (Some valves) [tank] [\<lparr>pipeline_id = q, nodes = ns\<rparr>])
       = [\<lparr>bs_pipelineId = q, bs_start = ns ! k, bs_end = ns ! (k + 1),
           bs_status = ''blocked'', bs_blockedBy = name bv\<rparr>]"
proof -
  let ?P = "\<lparr>pipeline_id = q, nodes = ns\<rparr>"
  let ?cvs = "closedValvesOf (Some valves)"
  let ?e0 = "\<lparr>pipelineId = q, nodeIndex = 0, sourceTank = name tank\<rparr>"
  let ?within = "\<lambda>j v. distanceToSegment distance (position v) (ns ! j) (ns ! (j + 1))
      < VALVE_BLOCK_DISTANCE"
  have cvs: "set ?cvs = {v \<in> set valves. \<not> isOpen v}"
    by (auto simp: closedValvesOf_def)
  have free: "getBlockingValve distance (ns ! j) (ns ! (j + 1)) ?cvs VALVE_BLOCK_DISTANCE = None"
    if "j < length ns - 1" "j \<noteq> k" for j
    unfolding getBlockingValve_find find_None_iff using near that cvs by auto
  have "find (?within k) ?cvs \<noteq> None"
    unfolding find_None_iff using near bv k cvs by auto
  then obtain v where v: "find (?within k) ?cvs = Some v" by auto
  then have "v \<in> set ?cvs \<and> ?within k v"
    by (auto simp: find_Some_iff)
  then have "v = bv" using near k cvs by auto
  then have blocked: "getBlockingValve distance (ns ! k) (ns ! (k + 1)) ?cvs VALVE_BLOCK_DISTANCE
      = Some bv"
    using v by (simp add: getBlockingValve_find)
  have len: "0 < length ns" using k by (cases ns) auto
  have node: "connectNode distance tank ns = Some 0"
    unfolding connectNode_def using tank len by (simp add: upt_conv_Cons)
  define rest where "rest = (case connectSegment distance tank ns of None \<Rightarrow> [] | Some i \<Rightarrow> [?e0])"
  have seeds: "seedQueue distance [tank] [?P] = ?e0 # rest"
    using entry node by (auto simp: seedQueue_def seedPipeline_def rest_def)
  have rest: "rest = [] \<or> rest = [?e0]"
    by (simp add: rest_def split: option.splits)
  let ?init = "initialState distance [tank] [?P]"
  let ?flow = "map (\<lambda>j. \<lparr>fs_pipelineId = q, fs_start = ns ! j, fs_end = ns ! (j + 1),
                    fs_status = ''flowing'', fs_sourceTank = name tank\<rparr>) [0..<k]"
  let ?block = "[\<lparr>bs_pipelineId = q, bs_start = ns ! k, bs_end = ns ! (k + 1),
           bs_status = ''blocked'', bs_blockedBy = name bv\<rparr>]"
  let ?st0 = "?init\<lparr>iterations := 1, queue := rest, visitedPipelineNodes := [(q, 0)]\<rparr>"
  let ?st1 = "?st0\<lparr>visitedSegments := map (Pair q) [0..<k],
      flowData := (flowData ?st0)\<lparr>segments := ?flow\<rparr>\<rparr>"
  let ?st2 = "?st1\<lparr>blockedSegmentsSet := [(q, k)],
      flowData := (flowData ?st1)\<lparr>blockedSegments := ?block\<rparr>\<rparr>"
  have split: "[0..<length ns - 1] = [0..<k] @ k # [Suc k..<length ns - 1]"
    using k by (metis le_add2 le_add_same_cancel2 less_imp_add_positive upt_add_eq_append
        upt_conv_Cons)
  have run: "scanSegments distance ?cvs ?e0 ns ([0..<k] @ k # [Suc k..<length ns - 1]) ?st0
      = scanSegments distance ?cvs ?e0 ns (k # [Suc k..<length ns - 1]) ?st1"
    using scanSegments_flowing_run[of "[0..<k]" ?e0 ?st0 distance ns ?cvs
        "k # [Suc k..<length ns - 1]"] free k
    by (simp add: initialState_def)
  have fresh: "(pipelineId ?e0, k) \<notin> set (visitedSegments ?st1)"
      "(pipelineId ?e0, k) \<notin> set (blockedSegmentsSet ?st1)"
    by (auto simp: initialState_def)
  have stop: "scanSegments distance ?cvs ?e0 ns (k # [Suc k..<length ns - 1]) ?st1 = ?st2"
    unfolding scanSegments_block[OF fresh blocked]
    by (simp add: initialState_def)
  have scan: "scanSegments distance ?cvs ?e0 ns [0..<length ns - 1] ?st0 = ?st2"
    using split run stop by simp
  let ?st3 = "?st2\<lparr>flowData := (flowData ?st2)\<lparr>pipelineStatus := [(q, ''flowing'')]\<rparr>\<rparr>"
  have it1: "bfsIteration distance [?P] ?cvs ?init = ?st3"
    using scan
    by (simp add: bfsIteration_def initialState_def seeds findPipeline_def set_add_def Let_def
        connections_same_id)
  have q3: "queue ?st3 = rest" by simp
  have i3: "iterations ?st3 < maxIterations" by (simp add: maxIterations_def)
  have final: "visitedSegments (bfsLoop distance [?P] ?cvs ?st3) = map (Pair q) [0..<k]
      \<and> blockedSegmentsSet (bfsLoop distance [?P] ?cvs ?st3) = [(q, k)]
      \<and> segments (flowData (bfsLoop distance [?P] ?cvs ?st3)) = ?flow
      \<and> blockedSegments (flowData (bfsLoop distance [?P] ?cvs ?st3)) = ?block"
  proof (cases "rest = []")
    case True
    then show ?thesis by (simp add: bfsLoop_empty)
  next
    case False
    then have r: "rest = [?e0]" using rest by simp
    let ?st4 = "?st3\<lparr>iterations := 2, queue := []\<rparr>"
    have "bfsIteration distance [?P] ?cvs ?st3 = ?st4"
      by (simp add: bfsIteration_def r findPipeline_def Let_def)
    then have "bfsLoop distance [?P] ?cvs ?st3 = bfsLoop distance [?P] ?cvs ?st4"
      using bfsLoop_step[of ?st3 distance "[?P]" ?cvs] r i3 by simp
    also have "\<dots> = ?st4" by (simp add: bfsLoop_empty)
    finally show ?thesis by simp
  qed
  have "queue ?init \<noteq> []" "iterations ?init < maxIterations"
    by (simp_all add: initialState_def seeds maxIterations_def)
  then have "finalState distance (Some valves) [tank] [?P] = bfsLoop distance [?P] ?cvs ?st3"
    unfolding finalState_def using bfsLoop_step[of ?init distance "[?P]" ?cvs] it1 by simp
  then show ?thesis
    using final by (simp add: computeMultiTankBFS_lists)
qed

theorem blocking_cuts_downstream_witness:
  "visitedSegments (finalState flatDistance (Some [exValve]) [exTank] [exPipeline]) = [(1, 0)]
   \<and> blockedSegmentsSet (finalState flatDistance (Some [exValve]) [exTank] [exPipeline]) = [(1, 1)]
   \<and> map fs_end (segments (computeMultiTankBFS flatDistance (Some [exValve]) [exTank] [exPipeline]))
       = [\<lparr>lat = 17.001, lng = 78\<rparr>]
   \<and> map bs_blockedBy
       (blockedSegments (computeMultiTankBFS flatDistance (Some [exValve]) [exTank] [exPipeline]))
       = [''V'']"
proof -
  let ?ns = "[\<lparr>lat = 17, lng = 78\<rparr>, \<lparr>lat = 17.001, lng = 78\<rparr>, \<lparr>lat = 17.002, lng = 78\<rparr>]"
  have p: "exPipeline = \<lparr>pipeline_id = 1, nodes = ?ns\<rparr>" by (simp add: exPipeline_def)
  have k: "(1::nat) < length ?ns - 1" by simp
  have bv: "exValve \<in> set [exValve]" "\<not> isOpen exValve" by (simp_all add: exValve_def)
  have near: "\<forall>v\<in>set [exValve]. \<forall>j<length ?ns - 1. \<not> isOpen v \<longrightarrow>
        (distanceToSegment flatDistance (position v) (?ns ! j) (?ns ! (j + 1)) < VALVE_BLOCK_DISTANCE)
          = (v = exValve \<and> j = 1)"
    by (simp add: exValve_def distanceToSegment_def position_def flatDistance_def
        VALVE_BLOCK_DISTANCE_def less_Suc_eq)
  have tank: "flatDistance (position exTank) (?ns ! 0) < CONNECT_DISTANCE"
    by (simp add: exTank_def position_def flatDistance_def CONNECT_DISTANCE_def)
  have entry: "connectSegment flatDistance exTank ?ns = None
      \<or> connectSegment flatDistance exTank ?ns = Some 0"
    by (simp add: connectSegment_def exTank_def distanceToSegment_def position_def
        flatDistance_def CONNECT_DISTANCE_def)
  show ?thesis
    using blocking_cuts_downstream[OF k bv near tank entry, of 1]
    unfolding p [symmetric]
    by (simp add: exValve_def)
qed

section \<open>Propagation from a blocked pipeline\<close>

text \<open>What one dequeue of a fresh entry of a known pipeline does to the node set and to
  the queue, whatever the scan finds.\<close>

lemma bfsIteration_process:
  assumes "queue st = cur # rest"
    and "findPipeline pipelines (pipelineId cur) = Some p"
    and "(pipelineId cur, nodeIndex cur) \<notin> set (visitedPipelineNodes st)"
  shows "visitedPipelineNodes (bfsIteration distance pipelines closedValves st)
           = visitedPipelineNodes st @ [(pipelineId cur, nodeIndex cur)]"
    and "queue (bfsIteration distance pipelines closedValves st)
           = rest @ connections distance pipelines
               (visitedPipelineNodes st @ [(pipelineId cur, nodeIndex cur)]) cur (nodes p)"
  using assms
  by (simp_all add: bfsIteration_def Let_def set_add_def scanSegments_frame)

lemma connections_member:
  assumes "other \<in> set pipelines" and "pipeline_id other \<noteq> pipelineId cur"
    and "c \<in> set ns" and "j < length (nodes other)"
    and "distance c (nodes other ! j) < CONNECT_DISTANCE"
    and "(pipeline_id other, j) \<notin> set visited"
  shows "\<lparr>pipelineId = pipeline_id other, nodeIndex = j, sourceTank = sourceTank cur\<rparr>
           \<in> set (connections distance pipelines visited cur ns)"
proof -
  have "\<lparr>pipelineId = pipeline_id other, nodeIndex = j, sourceTank = sourceTank cur\<rparr>
           \<in> set (connectionsTo distance visited cur ns other)"
    unfolding connectionsTo_def Let_def using assms(3-6) by auto
  then show ?thesis
    unfolding connections_def using assms(1,2) by auto
qed

lemma ex_branch_finalState:
  "finalState flatDistance (Some [exValveFirst]) [exTank] [exPipeline, exBranch] =
     \<lparr>flowData =
        \<lparr>segments =
           [\<lparr>fs_pipelineId = 2, fs_start = \<lparr>lat = 17.0022, lng = 78\<rparr>,
             fs_end = \<lparr>lat = 17.003, lng = 78\<rparr>,
             fs_status = ''flowing'', fs_sourceTank = ''T''\<rparr>,
            \<lparr>fs_pipelineId = 1, fs_start = \<lparr>lat = 17.001, lng = 78\<rparr>,
             fs_end = \<lparr>lat = 17.002, lng = 78\<rparr>,
             fs_status = ''flowing'', fs_sourceTank = ''T''\<rparr>],
         blockedSegments =
           [\<lparr>bs_pipelineId = 1, bs_start = \<lparr>lat = 17, lng = 78\<rparr>,
             bs_end = \<lparr>lat = 17.001, lng = 78\<rparr>,
             bs_status = ''blocked'', bs_blockedBy = ''W''\<rparr>],
         totalSegments = 0, pipelineStatus = [(1, ''flowing''), (2, ''flowing'')]\<rparr>,
      visitedSegments = [(2, 0), (1, 1)], blockedSegmentsSet = [(1, 0)],
      queue = [], visitedPipelineNodes = [(1, 0), (2, 0), (1, 2), (1, 1)],
      iterations = 8\<rparr>"
  by code_simp

lemma ex_branch_first_iteration:
  "bfsIteration flatDistance [exPipeline, exBranch] (closedValvesOf (Some [exValveFirst]))
       (initialState flatDistance [exTank] [exPipeline, exBranch]) =
     \<lparr>flowData =
        \<lparr>segments = [],
         blockedSegments =
           [\<lparr>bs_pipelineId = 1, bs_start = \<lparr>lat = 17, lng = 78\<rparr>,
             bs_end = \<lparr>lat = 17.001, lng = 78\<rparr>,
             bs_status = ''blocked'', bs_blockedBy = ''W''\<rparr>],
         totalSegments = 0, pipelineStatus = [(1, ''flowing'')]\<rparr>,
      visitedSegments = [], blockedSegmentsSet = [(1, 0)],
      queue = [\<lparr>pipelineId = 1, nodeIndex = 0, sourceTank = ''T''\<rparr>,
               \<lparr>pipelineId = 2, nodeIndex = 0, sourceTank = ''T''\<rparr>,
               \<lparr>pipelineId = 2, nodeIndex = 0, sourceTank = ''T''\<rparr>,
               \<lparr>pipelineId = 2, nodeIndex = 0, sourceTank = ''T''\<rparr>],
      visitedPipelineNodes = [(1, 0)],
      iterations = 1\<rparr>"
  by code_simp

text \<open>
  C9. The propagation of one dequeue does not look at what the scan found: for every node
  of the current pipeline, whatever its index, every node of another pipeline within the
  connect distance of it is pushed unless its key is visited. So in the example, where
  the closed valve blocks segment 0 of the first pipeline in the first dequeue and the
  second pipeline is near node 2 only, that dequeue still pushes the second pipeline
  while it leaves the flowing list empty and the blocked list with segment 0, and the
  result returned by \<open>computeMultiTankBFS\<close> has the segment of the second pipeline in its
  flowing list, attributed to the tank, and segment 0 of the first pipeline in its
  blocked list, with the name of the valve.
\<close>

theorem propagation_ignores_block:
  "(\<forall>st cur rest p other i j.
       queue st = cur # rest
       \<and> findPipeline pipelines (pipelineId cur) = Some p
       \<and> (pipelineId cur, nodeIndex cur) \<notin> set (visitedPipelineNodes st)
       \<and> other \<in> set pipelines \<and> pipeline_id other \<noteq> pipelineId cur
       \<and> i < length (nodes p) \<and> j < length (nodes other)
       \<and> distance (nodes p ! i) (nodes other ! j) < CONNECT_DISTANCE
       \<and> (pipeline_id other, j) \<notin> set (visitedPipelineNodes st)
       \<longrightarrow> \<lparr>pipelineId = pipeline_id other, nodeIndex = j, sourceTank = sourceTank cur\<rparr>
             \<in> set (queue (bfsIteration distance pipelines closedValves st)))
   \<and> blockedSegmentsSet (bfsIteration flatDistance [exPipeline, exBranch]
         (closedValvesOf (Some [exValveFirst]))
         (initialState flatDistance [exTank] [exPipeline, exBranch])) = [(1, 0)]
   \<and> visitedSegments (bfsIteration flatDistance [exPipeline, exBranch]
         (closedValvesOf (Some [exValveFirst]))
         (initialState flatDistance [exTank] [exPipeline, exBranch])) = []
   \<and> \<lparr>pipelineId = 2, nodeIndex = 0, sourceTank = ''T''\<rparr>
       \<in> set (queue (bfsIteration flatDistance [exPipeline, exBranch]
             (closedValvesOf (Some [exValveFirst]))
             (initialState flatDistance [exTank] [exPipeline, exBranch])))
   \<and> (2, 0) \<in> set (visitedSegments
         (finalState flatDistance (Some [exValveFirst]) [exTank] [exPipeline, exBranch]))
   \<and> blockedSegmentsSet
         (finalState flatDistance (Some [exValveFirst]) [exTank] [exPipeline, exBranch]) = [(1, 0)]
   \<and> \<not> pipelinesAdjacent flatDistance
         \<lparr>pipeline_id = 1, nodes = take 2 (nodes exPipeline)\<rparr> exBranch
   \<and> segments (flowData (bfsIteration flatDistance [exPipeline, exBranch]
         (closedValvesOf (Some [exValveFirst]))
         (initialState flatDistance [exTank] [exPipeline, exBranch]))) = []
   \<and> blockedSegments (flowData (bfsIteration flatDistance [exPipeline, exBranch]
         (closedValvesOf (Some [exValveFirst]))
         (initialState flatDistance [exTank] [exPipeline, exBranch])))
       = [\<lparr>bs_pipelineId = 1, bs_start = \<lparr>lat = 17, lng = 78\<rparr>,
           bs_end = \<lparr>lat = 17.001, lng = 78\<rparr>,
           bs_status = ''blocked'', bs_blockedBy = ''W''\<rparr>]
   \<and> segments (computeMultiTankBFS flatDistance (Some [exValveFirst]) [exTank]
         [exPipeline, exBranch])
       = [\<lparr>fs_pipelineId = 2, fs_start = \<lparr>lat = 17.0022, lng = 78\<rparr>,
           fs_end = \<lparr>lat = 17.003, lng = 78\<rparr>,
           fs_status = ''flowing'', fs_sourceTank = ''T''\<rparr>,
          \<lparr>fs_pipelineId = 1, fs_start = \<lparr>lat = 17.001, lng = 78\<rparr>,
           fs_end = \<lparr>lat = 17.002, lng = 78\<rparr>,
           fs_status = ''flowing'', fs_sourceTank = ''T''\<rparr>]
   \<and> blockedSegments (computeMultiTankBFS flatDistance (Some [exValveFirst]) [exTank]
         [exPipeline, exBranch])
       = [\<lparr>bs_pipelineId = 1, bs_start = \<lparr>lat = 17, lng = 78\<rparr>,
           bs_end = \<lparr>lat = 17.001, lng = 78\<rparr>,
           bs_status = ''blocked'', bs_blockedBy = ''W''\<rparr>]"
proof -
  have general: "\<forall>st cur rest p other i j.
       queue st = cur # rest
       \<and> findPipeline pipelines (pipelineId cur) = Some p
       \<and> (pipelineId cur, nodeIndex cur) \<notin> set (visitedPipelineNodes st)
       \<and> other \<in> set pipelines \<and> pipeline_id other \<noteq> pipelineId cur
       \<and> i < length (nodes p) \<and> j < length (nodes other)
       \<and> distance (nodes p ! i) (nodes other ! j) < CONNECT_DISTANCE
       \<and> (pipeline_id other, j) \<notin> set (visitedPipelineNodes st)
       \<longrightarrow> \<lparr>pipelineId = pipeline_id other, nodeIndex = j, sourceTank = sourceTank cur\<rparr>
             \<in> set (queue (bfsIteration distance pipelines closedValves st))"
  proof (intro allI impI, elim conjE)
    fix st :: bfs_state and cur :: entry and rest :: "entry list"
      and p :: pipeline and other :: pipeline and i j :: nat
    assume that: "queue st = cur # rest" "findPipeline pipelines (pipelineId cur) = Some p"
      "(pipelineId cur, nodeIndex cur) \<notin> set (visitedPipelineNodes st)"
      "other \<in> set pipelines" "pipeline_id other \<noteq> pipelineId cur"
      "i < length (nodes p)" "j < length (nodes other)"
      "distance (nodes p ! i) (nodes other ! j) < CONNECT_DISTANCE"
      "(pipeline_id other, j) \<notin> set (visitedPipelineNodes st)"
    have "(pipeline_id other, j)
        \<notin> set (visitedPipelineNodes st @ [(pipelineId cur, nodeIndex cur)])"
      using that(5,9) by auto
    then have "\<lparr>pipelineId = pipeline_id other, nodeIndex = j, sourceTank = sourceTank cur\<rparr>
        \<in> set (connections distance pipelines
              (visitedPipelineNodes st @ [(pipelineId cur, nodeIndex cur)]) cur (nodes p))"
      using that(4-8) by (intro connections_member) auto
    then show "\<lparr>pipelineId = pipeline_id other, nodeIndex = j, sourceTank = sourceTank cur\<rparr>
             \<in> set (queue (bfsIteration distance pipelines closedValves st))"
      unfolding bfsIteration_process(2)[OF that(1,2,3)] by simp
  qed
  have far: "\<not> pipelinesAdjacent flatDistance
         \<lparr>pipeline_id = 1, nodes = take 2 (nodes exPipeline)\<rparr> exBranch"
    by (simp add: pipelinesAdjacent_def model_defs example_defs)
  have returned: "segments (computeMultiTankBFS flatDistance (Some [exValveFirst]) [exTank]
         [exPipeline, exBranch])
       = [\<lparr>fs_pipelineId = 2, fs_start = \<lparr>lat = 17.0022, lng = 78\<rparr>,
           fs_end = \<lparr>lat = 17.003, lng = 78\<rparr>,
           fs_status = ''flowing'', fs_sourceTank = ''T''\<rparr>,
          \<lparr>fs_pipelineId = 1, fs_start = \<lparr>lat = 17.001, lng = 78\<rparr>,
           fs_end = \<lparr>lat = 17.002, lng = 78\<rparr>,
           fs_status = ''flowing'', fs_sourceTank = ''T''\<rparr>]"
    "blockedSegments (computeMultiTankBFS flatDistance (Some [exValveFirst]) [exTank]
         [exPipeline, exBranch])
       = [\<lparr>bs_pipelineId = 1, bs_start = \<lparr>lat = 17, lng = 78\<rparr>,
           bs_end = \<lparr>lat = 17.001, lng = 78\<rparr>,
           bs_status = ''blocked'', bs_blockedBy = ''W''\<rparr>]"
    unfolding computeMultiTankBFS_def Let_def ex_branch_finalState by simp_all
  show ?thesis
    unfolding returned ex_branch_first_iteration ex_branch_finalState
    by (intro conjI general far) simp_all
qed

theorem propagation_ignores_block_witness:
  "queue (initialState flatDistance [exTank] [exPipeline, exBranch])
     = [\<lparr>pipelineId = 1, nodeIndex = 0, sourceTank = ''T''\<rparr>,
        \<lparr>pipelineId = 1, nodeIndex = 0, sourceTank = ''T''\<rparr>]
   \<and> findPipeline [exPipeline, exBranch] 1 = Some exPipeline
   \<and> visitedPipelineNodes (initialState flatDistance [exTank] [exPipeline, exBranch]) = []
   \<and> pipeline_id exBranch = 2
   \<and> flatDistance (nodes exPipeline ! 2) (nodes exBranch ! 0) < CONNECT_DISTANCE
   \<and> getBlockingValve flatDistance (nodes exPipeline ! 0) (nodes exPipeline ! 1)
        (closedValvesOf (Some [exValveFirst])) VALVE_BLOCK_DISTANCE = Some exValveFirst
   \<and> \<lparr>pipelineId = 2, nodeIndex = 0, sourceTank = ''T''\<rparr>
       \<in> set (queue (bfsIteration flatDistance [exPipeline, exBranch]
             (closedValvesOf (Some [exValveFirst]))
             (initialState flatDistance [exTank] [exPipeline, exBranch])))
   \<and> \<lparr>fs_pipelineId = 2, fs_start = \<lparr>lat = 17.0022, lng = 78\<rparr>,
        fs_end = \<lparr>lat = 17.003, lng = 78\<rparr>, fs_status = ''flowing'', fs_sourceTank = ''T''\<rparr>
       \<in> set (segments (computeMultiTankBFS flatDistance (Some [exValveFirst]) [exTank]
             [exPipeline, exBranch]))
   \<and> \<lparr>bs_pipelineId = 1, bs_start = \<lparr>lat = 17, lng = 78\<rparr>,
        bs_end = \<lparr>lat = 17.001, lng = 78\<rparr>, bs_status = ''blocked'', bs_blockedBy = ''W''\<rparr>
       \<in> set (blockedSegments (computeMultiTankBFS flatDistance (Some [exValveFirst]) [exTank]
             [exPipeline, exBranch]))"
proof -
  note whole = propagation_ignores_block[of "[exPipeline, exBranch]" flatDistance
      "closedValvesOf (Some [exValveFirst])"]
  have returned: "segments (computeMultiTankBFS flatDistance (Some [exValveFirst]) [exTank]
         [exPipeline, exBranch])
       = [\<lparr>fs_pipelineId = 2, fs_start = \<lparr>lat = 17.0022, lng = 78\<rparr>,
           fs_end = \<lparr>lat = 17.003, lng = 78\<rparr>,
           fs_status = ''flowing'', fs_sourceTank = ''T''\<rparr>,
          \<lparr>fs_pipelineId = 1, fs_start = \<lparr>lat = 17.001, lng = 78\<rparr>,
           fs_end = \<lparr>lat = 17.002, lng = 78\<rparr>,
           fs_status = ''flowing'', fs_sourceTank = ''T''\<rparr>]"
    "blockedSegments (computeMultiTankBFS flatDistance (Some [exValveFirst]) [exTank]
         [exPipeline, exBranch])
       = [\<lparr>bs_pipelineId = 1, bs_start = \<lparr>lat = 17, lng = 78\<rparr>,
           bs_end = \<lparr>lat = 17.001, lng = 78\<rparr>,
           bs_status = ''blocked'', bs_blockedBy = ''W''\<rparr>]"
    using whole by blast+
  have facts: "queue (initialState flatDistance [exTank] [exPipeline, exBranch])
     = [\<lparr>pipelineId = 1, nodeIndex = 0, sourceTank = ''T''\<rparr>,
        \<lparr>pipelineId = 1, nodeIndex = 0, sourceTank = ''T''\<rparr>]
   \<and> findPipeline [exPipeline, exBranch] 1 = Some exPipeline
   \<and> visitedPipelineNodes (initialState flatDistance [exTank] [exPipeline, exBranch]) = []
   \<and> pipeline_id exBranch = 2
   \<and> flatDistance (nodes exPipeline ! 2) (nodes exBranch ! 0) < CONNECT_DISTANCE
   \<and> getBlockingValve flatDistance (nodes exPipeline ! 0) (nodes exPipeline ! 1)
        (closedValvesOf (Some [exValveFirst])) VALVE_BLOCK_DISTANCE = Some exValveFirst"
    by (simp add: model_defs example_defs)
  have "\<lparr>pipelineId = pipeline_id exBranch, nodeIndex = 0,
          sourceTank = sourceTank \<lparr>pipelineId = 1, nodeIndex = 0, sourceTank = ''T''\<rparr>\<rparr>
       \<in> set (queue (bfsIteration flatDistance [exPipeline, exBranch]
             (closedValvesOf (Some [exValveFirst]))
             (initialState flatDistance [exTank] [exPipeline, exBranch])))"
    using propagation_ignores_block[of "[exPipeline, exBranch]" flatDistance
        "closedValvesOf (Some [exValveFirst])", THEN conjunct1, rule_format,
        of "initialState flatDistance [exTank] [exPipeline, exBranch]"
          "\<lparr>pipelineId = 1, nodeIndex = 0, sourceTank = ''T''\<rparr>"
          "[\<lparr>pipelineId = 1, nodeIndex = 0, sourceTank = ''T''\<rparr>]"
          exPipeline exBranch 2 0]
      facts
    by (simp add: exPipeline_def exBranch_def)
  then show ?thesis unfolding returned using facts by simp
qed

section \<open>Scans of a pipeline and its classified segments\<close>

lemma blocksBefore_Suc:
  "blocksBefore distance closedValves p (Suc i)
     = blocksBefore distance closedValves p i + (if blocks distance closedValves p i then 1 else 0)"
  by (simp add: blocksBefore_def)

lemma blocksBefore_mono:
  "i \<le> j \<Longrightarrow> blocksBefore distance closedValves p i \<le> blocksBefore distance closedValves p j"
proof (induction j)
  case 0
  then show ?case by simp
next
  case (Suc j)
  then show ?case
    by (cases "i = Suc j") (auto simp: blocksBefore_Suc)
qed

text \<open>The scan adds keys of the current pipeline and of the scanned indices only.\<close>

lemma scanSegments_keys:
  "set (visitedSegments st) \<subseteq> set (visitedSegments (scanSegments distance closedValves cur ns is st))
   \<and> set (visitedSegments (scanSegments distance closedValves cur ns is st))
       \<subseteq> set (visitedSegments st) \<union> Pair (pipelineId cur) ` set is
   \<and> set (blockedSegmentsSet st)
       \<subseteq> set (blockedSegmentsSet (scanSegments distance closedValves cur ns is st))
   \<and> set (blockedSegmentsSet (scanSegments distance closedValves cur ns is st))
       \<subseteq> set (blockedSegmentsSet st) \<union> Pair (pipelineId cur) ` set is"
proof (induction "is" arbitrary: st)
  case Nil
  then show ?case by simp
next
  case (Cons i "is")
  show ?case
  proof (cases "(pipelineId cur, i) \<in> set (visitedSegments st)
        \<or> (pipelineId cur, i) \<in> set (blockedSegmentsSet st)")
    case True
    then show ?thesis using Cons.IH[of st] by auto
  next
    case False
    show ?thesis
    proof (cases "getBlockingValve distance (ns ! i) (ns ! (i + 1)) closedValves
        VALVE_BLOCK_DISTANCE")
      case None
      let ?st' = "st\<lparr>visitedSegments := set_add (pipelineId cur, i) (visitedSegments st),
                   flowData := (flowData st)\<lparr>segments := segments (flowData st) @
                     [\<lparr>fs_pipelineId = pipelineId cur, fs_start = ns ! i,
                       fs_end = ns ! (i + 1), fs_status = ''flowing'',
                       fs_sourceTank = sourceTank cur\<rparr>]\<rparr>\<rparr>"
      have "scanSegments distance closedValves cur ns (i # is) st
          = scanSegments distance closedValves cur ns is ?st'"
        using False None by simp
      then show ?thesis using Cons.IH[of ?st'] by (auto simp: set_add_def)
    next
      case (Some v)
      then show ?thesis using False by (auto simp: set_add_def)
    qed
  qed
qed

text \<open>
  One scan of a pipeline whose classified segments are those reached by \<open>m\<close> scans
  classifies those reached by \<open>m + 1\<close> scans. The statement is about the rest of a scan
  that has arrived at index \<open>a\<close> without meeting a new block.
\<close>

lemma scanSegments_next:
  fixes p :: pipeline
  defines "n \<equiv> length (nodes p) - 1"
  assumes a: "a \<le> n"
    and before: "blocksBefore distance closedValves p a \<le> m"
    and vis: "\<forall>i<n. ((pipelineId cur, i) \<in> set (visitedSegments st))
        = (\<not> blocks distance closedValves p i
           \<and> (blocksBefore distance closedValves p i < m
              \<or> blocksBefore distance closedValves p i = m \<and> i < a))"
    and blk: "\<forall>i<n. ((pipelineId cur, i) \<in> set (blockedSegmentsSet st))
        = (blocks distance closedValves p i \<and> blocksBefore distance closedValves p i < m)"
  shows "(\<forall>i<n. ((pipelineId cur, i)
            \<in> set (visitedSegments (scanSegments distance closedValves cur (nodes p) [a..<n] st)))
        = (\<not> blocks distance closedValves p i \<and> blocksBefore distance closedValves p i < Suc m))
    \<and> (\<forall>i<n. ((pipelineId cur, i)
            \<in> set (blockedSegmentsSet (scanSegments distance closedValves cur (nodes p) [a..<n] st)))
        = (blocks distance closedValves p i \<and> blocksBefore distance closedValves p i < Suc m))"
  using a before vis blk
proof (induction "n - a" arbitrary: a st)
  case 0
  then have an: "a = n" using "0.prems"(1) by simp
  have noblock: "\<not> (blocks distance closedValves p i \<and> blocksBefore distance closedValves p i = m)"
    if "i < n" for i
  proof
    assume h: "blocks distance closedValves p i \<and> blocksBefore distance closedValves p i = m"
    then have "blocksBefore distance closedValves p (Suc i) = Suc m"
      by (simp add: blocksBefore_Suc)
    moreover have "blocksBefore distance closedValves p (Suc i)
        \<le> blocksBefore distance closedValves p a"
      using that an by (intro blocksBefore_mono) simp
    ultimately show False using "0.prems"(2) by simp
  qed
  have "\<forall>i<n. ((pipelineId cur, i) \<in> set (visitedSegments st))
        = (\<not> blocks distance closedValves p i \<and> blocksBefore distance closedValves p i < Suc m)"
    using "0.prems"(3) an by (auto simp: less_Suc_eq)
  moreover have "\<forall>i<n. ((pipelineId cur, i) \<in> set (blockedSegmentsSet st))
        = (blocks distance closedValves p i \<and> blocksBefore distance closedValves p i < Suc m)"
    using "0.prems"(4) an noblock by (auto simp: less_Suc_eq)
  ultimately show ?case using an by simp
next
  case (Suc d)
  then have an: "a < n" by simp
  let ?B = "blocks distance closedValves p"
  let ?c = "blocksBefore distance closedValves p"
  have list: "[a..<n] = a # [Suc a..<n]" using an by (simp add: upt_conv_Cons)
  have cle: "?c i \<le> ?c a" if "i \<le> a" for i using that by (rule blocksBefore_mono)
  have cge: "?c (Suc a) \<le> ?c i" if "a < i" for i using that by (intro blocksBefore_mono) simp
  consider (old) "?c a < m" | (free) "?c a = m" "\<not> ?B a" | (stop) "?c a = m" "?B a"
    using Suc.prems(2) by linarith
  then show "(\<forall>i<n. ((pipelineId cur, i)
            \<in> set (visitedSegments (scanSegments distance closedValves cur (nodes p) [a..<n] st)))
        = (\<not> ?B i \<and> ?c i < Suc m))
      \<and> (\<forall>i<n. ((pipelineId cur, i)
            \<in> set (blockedSegmentsSet (scanSegments distance closedValves cur (nodes p) [a..<n] st)))
        = (?B i \<and> ?c i < Suc m))"
  proof cases
    case old
    then have known: "(pipelineId cur, a) \<in> set (visitedSegments st)
        \<or> (pipelineId cur, a) \<in> set (blockedSegmentsSet st)"
      using Suc.prems(3,4) an by auto
    have step: "scanSegments distance closedValves cur (nodes p) [a..<n] st
        = scanSegments distance closedValves cur (nodes p) [Suc a..<n] st"
      using known by (simp add: list)
    have d: "d = n - Suc a" using Suc.hyps(2) by simp
    have b': "?c (Suc a) \<le> m" using old by (simp add: blocksBefore_Suc)
    have v': "\<forall>i<n. ((pipelineId cur, i) \<in> set (visitedSegments st))
        = (\<not> ?B i \<and> (?c i < m \<or> ?c i = m \<and> i < Suc a))"
      using Suc.prems(3) old by (auto simp: less_Suc_eq)
    show ?thesis
      unfolding step
      using Suc.hyps(1)[OF d _ b' v' Suc.prems(4)] an by simp
  next
    case free
    then have fresh: "(pipelineId cur, a) \<notin> set (visitedSegments st)"
        "(pipelineId cur, a) \<notin> set (blockedSegmentsSet st)"
      using Suc.prems(3,4) an by auto
    let ?st' = "st\<lparr>visitedSegments := set_add (pipelineId cur, a) (visitedSegments st),
                   flowData := (flowData st)\<lparr>segments := segments (flowData st) @
                     [\<lparr>fs_pipelineId = pipelineId cur, fs_start = nodes p ! a,
                       fs_end = nodes p ! (a + 1), fs_status = ''flowing'',
                       fs_sourceTank = sourceTank cur\<rparr>]\<rparr>\<rparr>"
    have none: "getBlockingValve distance (nodes p ! a) (nodes p ! (a + 1)) closedValves
        VALVE_BLOCK_DISTANCE = None"
      using free(2) by (simp add: blocks_def)
    have step: "scanSegments distance closedValves cur (nodes p) [a..<n] st
        = scanSegments distance closedValves cur (nodes p) [Suc a..<n] ?st'"
      using fresh none by (simp add: list)
    have d: "d = n - Suc a" using Suc.hyps(2) by simp
    have b': "?c (Suc a) \<le> m" using free by (simp add: blocksBefore_Suc)
    have v': "\<forall>i<n. ((pipelineId cur, i) \<in> set (visitedSegments ?st'))
        = (\<not> ?B i \<and> (?c i < m \<or> ?c i = m \<and> i < Suc a))"
      using Suc.prems(3) free by (auto simp: less_Suc_eq set_add_def)
    have k': "\<forall>i<n. ((pipelineId cur, i) \<in> set (blockedSegmentsSet ?st'))
        = (?B i \<and> ?c i < m)"
      using Suc.prems(4) by simp
    show ?thesis
      unfolding step
      using Suc.hyps(1)[OF d _ b' v' k'] an by simp
  next
    case stop
    then have fresh: "(pipelineId cur, a) \<notin> set (visitedSegments st)"
        "(pipelineId cur, a) \<notin> set (blockedSegmentsSet st)"
      using Suc.prems(3,4) an by auto
    from stop(2) obtain v where some: "getBlockingValve distance (nodes p ! a) (nodes p ! (a + 1))
        closedValves VALVE_BLOCK_DISTANCE = Some v"
      by (auto simp: blocks_def)
    let ?st' = "st\<lparr>blockedSegmentsSet := set_add (pipelineId cur, a) (blockedSegmentsSet st),
                flowData := (flowData st)\<lparr>blockedSegments := blockedSegments (flowData st) @
                  [\<lparr>bs_pipelineId = pipelineId cur, bs_start = nodes p ! a,
                    bs_end = nodes p ! (a + 1), bs_status = ''blocked'',
                    bs_blockedBy = name v\<rparr>]\<rparr>\<rparr>"
    have step: "scanSegments distance closedValves cur (nodes p) [a..<n] st = ?st'"
      using fresh some by (simp add: list)
    have next_count: "?c (Suc a) = Suc m" using stop by (simp add: blocksBefore_Suc)
    have low: "?c i \<le> m" if "i \<le> a" for i using cle[OF that] stop(1) by simp
    have high: "Suc m \<le> ?c i" if "a < i" for i using cge[OF that] next_count by simp
    have noblock: "\<not> (?B i \<and> ?c i = m)" if "i < a" for i
    proof
      assume h: "?B i \<and> ?c i = m"
      then have "?c (Suc i) = Suc m" by (simp add: blocksBefore_Suc)
      moreover have "?c (Suc i) \<le> ?c a" using that by (intro blocksBefore_mono) simp
      ultimately show False using stop(1) by simp
    qed
    have v: "((pipelineId cur, i) \<in> set (visitedSegments ?st')) = (\<not> ?B i \<and> ?c i < Suc m)"
      if "i < n" for i
    proof -
      consider "i < a" | "i = a" | "a < i" by linarith
      then show ?thesis
      proof cases
        case 1
        then show ?thesis using Suc.prems(3) that low[of i] by (auto simp: less_Suc_eq)
      next
        case 2
        then show ?thesis using fresh stop by simp
      next
        case 3
        then show ?thesis using Suc.prems(3) that high[of i] by auto
      qed
    qed
    have b: "((pipelineId cur, i) \<in> set (blockedSegmentsSet ?st')) = (?B i \<and> ?c i < Suc m)"
      if "i < n" for i
    proof -
      consider "i < a" | "i = a" | "a < i" by linarith
      then show ?thesis
      proof cases
        case 1
        then show ?thesis
          using Suc.prems(4) that low[of i] noblock[of i]
          by (auto simp: less_Suc_eq set_add_def)
      next
        case 2
        then show ?thesis using stop by (simp add: set_add_def)
      next
        case 3
        then show ?thesis
          using Suc.prems(4) that high[of i] by (auto simp: set_add_def)
      qed
    qed
    show ?thesis unfolding step using v b by blast
  qed
qed
section \<open>What one dequeue does\<close>

lemma bfsIteration_skip:
  assumes "queue st = cur # rest"
    and "findPipeline pipelines (pipelineId cur) = None
         \<or> (pipelineId cur, nodeIndex cur) \<in> set (visitedPipelineNodes st)"
  shows "bfsIteration distance pipelines closedValves st
           = st\<lparr>iterations := iterations st + 1, queue := rest\<rparr>"
  using assms by (auto simp: bfsIteration_def Let_def split: option.splits)

text \<open>What the scan does to the two key sets depends on these two sets only.\<close>

lemma scanSegments_cong:
  assumes "visitedSegments s1 = visitedSegments s2"
    and "blockedSegmentsSet s1 = blockedSegmentsSet s2"
  shows "visitedSegments (scanSegments distance closedValves cur ns is s1)
           = visitedSegments (scanSegments distance closedValves cur ns is s2)
       \<and> blockedSegmentsSet (scanSegments distance closedValves cur ns is s1)
           = blockedSegmentsSet (scanSegments distance closedValves cur ns is s2)"
  using assms
proof (induction "is" arbitrary: s1 s2)
  case Nil
  then show ?case by simp
next
  case (Cons i "is")
  show ?case
  proof (cases "(pipelineId cur, i) \<in> set (visitedSegments s1)
        \<or> (pipelineId cur, i) \<in> set (blockedSegmentsSet s1)")
    case True
    then show ?thesis using Cons.IH[OF Cons.prems] Cons.prems by auto
  next
    case False
    show ?thesis
    proof (cases "getBlockingValve distance (ns ! i) (ns ! (i + 1)) closedValves
        VALVE_BLOCK_DISTANCE")
      case None
      let ?upd = "\<lambda>s. s\<lparr>visitedSegments := set_add (pipelineId cur, i) (visitedSegments s),
                   flowData := (flowData s)\<lparr>segments := segments (flowData s) @
                     [\<lparr>fs_pipelineId = pipelineId cur, fs_start = ns ! i,
                       fs_end = ns ! (i + 1), fs_status = ''flowing'',
                       fs_sourceTank = sourceTank cur\<rparr>]\<rparr>\<rparr>"
      have "visitedSegments (?upd s1) = visitedSegments (?upd s2)"
          "blockedSegmentsSet (?upd s1) = blockedSegmentsSet (?upd s2)"
        using Cons.prems by simp_all
      from Cons.IH[OF this] show ?thesis
        using False None Cons.prems by simp
    next
      case (Some v)
      then show ?thesis using False Cons.prems by simp
    qed
  qed
qed

lemma bfsIteration_fresh:
  assumes "queue st = cur # rest"
    and "findPipeline pipelines (pipelineId cur) = Some p"
    and "(pipelineId cur, nodeIndex cur) \<notin> set (visitedPipelineNodes st)"
  shows "visitedSegments (bfsIteration distance pipelines closedValves st)
           = visitedSegments (scanSegments distance closedValves cur (nodes p)
               [0..<length (nodes p) - 1] st)"
    and "blockedSegmentsSet (bfsIteration distance pipelines closedValves st)
           = blockedSegmentsSet (scanSegments distance closedValves cur (nodes p)
               [0..<length (nodes p) - 1] st)"
proof -
  let ?st2 = "st\<lparr>iterations := iterations st + 1, queue := rest,
      visitedPipelineNodes := set_add (pipelineId cur, nodeIndex cur) (visitedPipelineNodes st)\<rparr>"
  have same: "visitedSegments ?st2 = visitedSegments st"
      "blockedSegmentsSet ?st2 = blockedSegmentsSet st"
    by simp_all
  note eq = scanSegments_cong[OF same, of distance closedValves cur "nodes p"
      "[0..<length (nodes p) - 1]"]
  show "visitedSegments (bfsIteration distance pipelines closedValves st)
           = visitedSegments (scanSegments distance closedValves cur (nodes p)
               [0..<length (nodes p) - 1] st)"
    using assms eq by (simp add: bfsIteration_def Let_def)
  show "blockedSegmentsSet (bfsIteration distance pipelines closedValves st)
           = blockedSegmentsSet (scanSegments distance closedValves cur (nodes p)
               [0..<length (nodes p) - 1] st)"
    using assms eq by (simp add: bfsIteration_def Let_def)
qed

section \<open>The classified segments are those reached by the scans made\<close>

lemma bfsIteration_scanInv:
  assumes inv: "scanInv distance pipelines closedValves st"
  shows "scanInv distance pipelines closedValves (bfsIteration distance pipelines closedValves st)"
proof (cases "queue st")
  case Nil
  then show ?thesis using inv by (simp add: bfsIteration_def scanInv_def scans_def)
next
  case (Cons cur rest)
  show ?thesis
  proof (cases "findPipeline pipelines (pipelineId cur) = None
         \<or> (pipelineId cur, nodeIndex cur) \<in> set (visitedPipelineNodes st)")
    case True
    show ?thesis
      unfolding bfsIteration_skip[OF Cons True]
      using inv by (simp add: scanInv_def scans_def)
  next
    case False
    then obtain p where p: "findPipeline pipelines (pipelineId cur) = Some p"
      and fresh: "(pipelineId cur, nodeIndex cur) \<notin> set (visitedPipelineNodes st)"
      by auto
    let ?q = "pipelineId cur"
    let ?n = "length (nodes p) - 1"
    let ?st' = "bfsIteration distance pipelines closedValves st"
    let ?sc = "scanSegments distance closedValves cur (nodes p) [0..<?n] st"
    let ?B = "blocks distance closedValves p"
    let ?c = "blocksBefore distance closedValves p"
    have nodes': "visitedPipelineNodes ?st' = visitedPipelineNodes st @ [(?q, nodeIndex cur)]"
      by (rule bfsIteration_process(1)[OF Cons p fresh])
    have vs: "visitedSegments ?st' = visitedSegments ?sc"
      and bs: "blockedSegmentsSet ?st' = blockedSegmentsSet ?sc"
      by (rule bfsIteration_fresh[OF Cons p fresh])+
    have inv_v: "(key \<in> set (visitedSegments st))
        = reached distance pipelines closedValves (scans st (fst key)) False key" for key
      using inv unfolding scanInv_def by blast
    have inv_b: "(key \<in> set (blockedSegmentsSet st))
        = reached distance pipelines closedValves (scans st (fst key)) True key" for key
      using inv unfolding scanInv_def by blast
    have inv_d: "distinct (visitedPipelineNodes st)"
      using inv unfolding scanInv_def by blast
    have sc_same: "scans ?st' q' = scans st q'" if "q' \<noteq> ?q" for q'
      using that by (simp add: scans_def nodes')
    have sc_next: "scans ?st' ?q = Suc (scans st ?q)"
      by (simp add: scans_def nodes')
    have pre_v: "\<forall>i<?n. ((?q, i) \<in> set (visitedSegments st))
        = (\<not> ?B i \<and> (?c i < scans st ?q \<or> ?c i = scans st ?q \<and> i < 0))"
      using inv_v[of "(?q, _)"] p by (auto simp: reached_def)
    have pre_b: "\<forall>i<?n. ((?q, i) \<in> set (blockedSegmentsSet st))
        = (?B i \<and> ?c i < scans st ?q)"
      using inv_b[of "(?q, _)"] p by (auto simp: reached_def)
    have c0: "?c 0 \<le> scans st ?q" by (simp add: blocksBefore_def)
    note post = scanSegments_next[of 0 p distance closedValves "scans st ?q" cur st,
        OF _ c0 pre_v pre_b, simplified]
    note keys = scanSegments_keys[of st distance closedValves cur "nodes p" "[0..<?n]"]
    have v: "(key \<in> set (visitedSegments ?st'))
        = reached distance pipelines closedValves (scans ?st' (fst key)) False key" for key
    proof (cases "fst key = ?q")
      case False
      then have "(key \<in> set (visitedSegments ?sc)) = (key \<in> set (visitedSegments st))"
        using keys by auto
      then show ?thesis
        using inv_v[of key] False sc_same[of "fst key"] by (simp add: vs)
    next
      case True
      obtain i where key: "key = (?q, i)" using True by (cases key) auto
      show ?thesis
      proof (cases "i < ?n")
        case True
        then show ?thesis
          using post p by (auto simp: key vs sc_next reached_def)
      next
        case False
        then have "key \<notin> Pair ?q ` set [0..<?n]" by (auto simp: key)
        moreover have "key \<notin> set (visitedSegments st)"
          using inv_v[of key] p False by (auto simp: reached_def key)
        ultimately have "key \<notin> set (visitedSegments ?sc)" using keys by blast
        then show ?thesis using p False by (auto simp: vs reached_def key)
      qed
    qed
    have b: "(key \<in> set (blockedSegmentsSet ?st'))
        = reached distance pipelines closedValves (scans ?st' (fst key)) True key" for key
    proof (cases "fst key = ?q")
      case False
      then have "(key \<in> set (blockedSegmentsSet ?sc)) = (key \<in> set (blockedSegmentsSet st))"
        using keys by auto
      then show ?thesis
        using inv_b[of key] False sc_same[of "fst key"] by (simp add: bs)
    next
      case True
      obtain i where key: "key = (?q, i)" using True by (cases key) auto
      show ?thesis
      proof (cases "i < ?n")
        case True
        then show ?thesis
          using post p by (auto simp: key bs sc_next reached_def)
      next
        case False
        then have "key \<notin> Pair ?q ` set [0..<?n]" by (auto simp: key)
        moreover have "key \<notin> set (blockedSegmentsSet st)"
          using inv_b[of key] p False by (auto simp: reached_def key)
        ultimately have "key \<notin> set (blockedSegmentsSet ?sc)" using keys by blast
        then show ?thesis using p False by (auto simp: bs reached_def key)
      qed
    qed
    have "distinct (visitedPipelineNodes ?st')"
      using inv_d fresh by (simp add: nodes')
    then show ?thesis
      unfolding scanInv_def using v b by blast
  qed
qed

lemma finalState_scanInv:
  "scanInv distance pipelines (closedValvesOf gvs) (finalState distance gvs tanks pipelines)"
  unfolding finalState_def
proof (rule bfsLoop_invariant)
  show "scanInv distance pipelines (closedValvesOf gvs) (initialState distance tanks pipelines)"
    by (simp add: initialState_def scanInv_def scans_def reached_def split: option.splits)
next
  fix s
  assume "scanInv distance pipelines (closedValvesOf gvs) s"
  then show "scanInv distance pipelines (closedValvesOf gvs)
      (bfsIteration distance pipelines (closedValvesOf gvs) s)"
    by (rule bfsIteration_scanInv)
qed
section \<open>The visited node keys are closed under propagation\<close>

lemma connectionsTo_member:
  "e \<in> set (connectionsTo distance visited cur ns other) \<longleftrightarrow>
     (\<exists>k. e = \<lparr>pipelineId = pipeline_id other, nodeIndex = k, sourceTank = sourceTank cur\<rparr>
        \<and> (pipeline_id other, k) \<notin> set visited
        \<and> ((\<exists>c\<in>set ns. k < length (nodes other)
                \<and> distance c (nodes other ! k) < CONNECT_DISTANCE)
           \<or> (\<exists>c\<in>set ns. k < length (nodes other) - 1
                \<and> distanceToSegment distance c (nodes other ! k) (nodes other ! (k + 1))
                     < CONNECT_DISTANCE)
           \<or> (\<exists>i<length ns - 1. k < length (nodes other)
                \<and> distanceToSegment distance (nodes other ! k) (ns ! i) (ns ! (i + 1))
                     < CONNECT_DISTANCE)))"
  unfolding connectionsTo_def Let_def
  by (simp add: image_iff) (safe; force)

lemma connectionsTo_keys:
  "nodeKey ` set (connectionsTo distance visited cur ns other)
     = {k \<in> nodeKey ` set (connectionsTo distance [] cur' ns other). k \<notin> set visited}"
proof (intro set_eqI iffI)
  fix k assume "k \<in> nodeKey ` set (connectionsTo distance visited cur ns other)"
  then obtain e where e: "e \<in> set (connectionsTo distance visited cur ns other)" "k = nodeKey e"
    by auto
  from e(1)[unfolded connectionsTo_member] obtain j where
    j: "e = \<lparr>pipelineId = pipeline_id other, nodeIndex = j, sourceTank = sourceTank cur\<rparr>"
       "(pipeline_id other, j) \<notin> set visited"
       "(\<exists>c\<in>set ns. j < length (nodes other)
                \<and> distance c (nodes other ! j) < CONNECT_DISTANCE)
           \<or> (\<exists>c\<in>set ns. j < length (nodes other) - 1
                \<and> distanceToSegment distance c (nodes other ! j) (nodes other ! (j + 1))
                     < CONNECT_DISTANCE)
           \<or> (\<exists>i<length ns - 1. j < length (nodes other)
                \<and> distanceToSegment distance (nodes other ! j) (ns ! i) (ns ! (i + 1))
                     < CONNECT_DISTANCE)"
    by blast
  let ?e' = "\<lparr>pipelineId = pipeline_id other, nodeIndex = j, sourceTank = sourceTank cur'\<rparr>"
  have "?e' \<in> set (connectionsTo distance [] cur' ns other)"
    unfolding connectionsTo_member using j(3) by simp
  moreover have "nodeKey ?e' = k" using e(2) j(1) by (simp add: nodeKey_def)
  ultimately show "k \<in> {k \<in> nodeKey ` set (connectionsTo distance [] cur' ns other).
      k \<notin> set visited}"
    using j(1,2) e(2) by (force simp: nodeKey_def)
next
  fix k assume "k \<in> {k \<in> nodeKey ` set (connectionsTo distance [] cur' ns other).
      k \<notin> set visited}"
  then obtain e where e: "e \<in> set (connectionsTo distance [] cur' ns other)" "k = nodeKey e"
      "k \<notin> set visited"
    by auto
  from e(1)[unfolded connectionsTo_member] obtain j where
    j: "e = \<lparr>pipelineId = pipeline_id other, nodeIndex = j, sourceTank = sourceTank cur'\<rparr>"
       "(\<exists>c\<in>set ns. j < length (nodes other)
                \<and> distance c (nodes other ! j) < CONNECT_DISTANCE)
           \<or> (\<exists>c\<in>set ns. j < length (nodes other) - 1
                \<and> distanceToSegment distance c (nodes other ! j) (nodes other ! (j + 1))
                     < CONNECT_DISTANCE)
           \<or> (\<exists>i<length ns - 1. j < length (nodes other)
                \<and> distanceToSegment distance (nodes other ! j) (ns ! i) (ns ! (i + 1))
                     < CONNECT_DISTANCE)"
    by blast
  let ?e' = "\<lparr>pipelineId = pipeline_id other, nodeIndex = j, sourceTank = sourceTank cur\<rparr>"
  have k: "k = (pipeline_id other, j)" using e(2) j(1) by (simp add: nodeKey_def)
  have "?e' \<in> set (connectionsTo distance visited cur ns other)"
    unfolding connectionsTo_member using j(2) e(3) k by simp
  moreover have "nodeKey ?e' = k" using k by (simp add: nodeKey_def)
  ultimately show "k \<in> nodeKey ` set (connectionsTo distance visited cur ns other)"
    by force
qed

lemma connections_keys:
  "nodeKey ` set (connections distance pipelines visited cur ns)
     = {k \<in> connectionKeys distance pipelines (pipelineId cur) ns. k \<notin> set visited}"
proof -
  let ?c0 = "\<lparr>pipelineId = pipelineId cur, nodeIndex = 0, sourceTank = []\<rparr>"
  have "nodeKey ` set (connections distance pipelines visited cur ns)
      = (\<Union>other\<in>{x \<in> set pipelines. pipeline_id x \<noteq> pipelineId cur}.
           nodeKey ` set (connectionsTo distance visited cur ns other))"
    unfolding connections_def by auto
  also have "\<dots> = (\<Union>other\<in>{x \<in> set pipelines. pipeline_id x \<noteq> pipelineId cur}.
      {k \<in> nodeKey ` set (connectionsTo distance [] ?c0 ns other). k \<notin> set visited})"
    using connectionsTo_keys[of distance visited cur ns _ ?c0] by simp
  also have "\<dots> = {k \<in> (\<Union>other\<in>{x \<in> set pipelines. pipeline_id x \<noteq> pipelineId cur}.
      nodeKey ` set (connectionsTo distance [] ?c0 ns other)). k \<notin> set visited}"
    by blast
  also have "(\<Union>other\<in>{x \<in> set pipelines. pipeline_id x \<noteq> pipelineId cur}.
      nodeKey ` set (connectionsTo distance [] ?c0 ns other))
      = connectionKeys distance pipelines (pipelineId cur) ns"
    unfolding connectionKeys_def connections_def by auto
  finally show ?thesis .
qed

lemma connectionKeys_known:
  assumes "k \<in> connectionKeys distance pipelines q ns"
  shows "findPipeline pipelines (fst k) \<noteq> None"
proof -
  from assms obtain other e where "other \<in> set pipelines"
      "e \<in> set (connectionsTo distance [] \<lparr>pipelineId = q, nodeIndex = 0, sourceTank = []\<rparr>
          ns other)" "k = nodeKey e"
    unfolding connectionKeys_def connections_def
    by (auto split: if_splits)
  then have "other \<in> set pipelines" "fst k = pipeline_id other"
    unfolding connectionsTo_member by (auto simp: nodeKey_def)
  then show ?thesis
    by (auto simp: findPipeline_def find_None_iff)
qed

lemma seedQueue_known:
  assumes "e \<in> set (seedQueue distance tanks pipelines)"
  shows "findPipeline pipelines (pipelineId e) \<noteq> None"
proof -
  from assms obtain p where "p \<in> set pipelines" "pipelineId e = pipeline_id p"
    unfolding seedQueue_def seedPipeline_def
    by (auto split: option.splits)
  then show ?thesis
    by (auto simp: findPipeline_def find_None_iff)
qed

lemma bfsIteration_pendingInv:
  assumes inv: "pendingInv distance pipelines S st" and ne: "queue st \<noteq> []"
  shows "pendingInv distance pipelines S (bfsIteration distance pipelines closedValves st)"
proof -
  obtain cur rest where q: "queue st = cur # rest" using ne by (cases "queue st") auto
  have known: "\<forall>e\<in>set (queue st). findPipeline pipelines (pipelineId e) \<noteq> None"
    and seeds: "S \<subseteq> set (visitedPipelineNodes st) \<union> nodeKey ` set (queue st)"
    and closed: "\<And>k p. k \<in> set (visitedPipelineNodes st) \<Longrightarrow>
        findPipeline pipelines (fst k) = Some p \<Longrightarrow>
        connectionKeys distance pipelines (fst k) (nodes p)
          \<subseteq> set (visitedPipelineNodes st) \<union> nodeKey ` set (queue st)"
    using inv unfolding pendingInv_def by blast+
  obtain p where p: "findPipeline pipelines (pipelineId cur) = Some p"
    using known q by auto
  show ?thesis
  proof (cases "(pipelineId cur, nodeIndex cur) \<in> set (visitedPipelineNodes st)")
    case True
    have st': "bfsIteration distance pipelines closedValves st
        = st\<lparr>iterations := iterations st + 1, queue := rest\<rparr>"
      using bfsIteration_skip[OF q] True by blast
    have sub: "set (visitedPipelineNodes st) \<union> nodeKey ` set (queue st)
        \<subseteq> set (visitedPipelineNodes st) \<union> nodeKey ` set rest"
      using True q by (auto simp: nodeKey_def)
    show ?thesis
      unfolding pendingInv_def st'
      using known seeds closed sub q by (simp, blast)
  next
    case False
    let ?key = "(pipelineId cur, nodeIndex cur)"
    let ?st' = "bfsIteration distance pipelines closedValves st"
    let ?V' = "visitedPipelineNodes st @ [?key]"
    have v': "visitedPipelineNodes ?st' = ?V'"
      and q': "queue ?st' = rest @ connections distance pipelines ?V' cur (nodes p)"
      by (rule bfsIteration_process[OF q p False])+
    have keys': "nodeKey ` set (queue ?st') = nodeKey ` set rest
        \<union> {k \<in> connectionKeys distance pipelines (pipelineId cur) (nodes p). k \<notin> set ?V'}"
      unfolding q' using connections_keys[of distance pipelines ?V' cur "nodes p"]
      by (simp add: image_Un)
    have sub: "set (visitedPipelineNodes st) \<union> nodeKey ` set (queue st)
        \<subseteq> set ?V' \<union> nodeKey ` set (queue ?st')"
      unfolding keys' using q by (auto simp: nodeKey_def)
    have a: "\<forall>e\<in>set (queue ?st'). findPipeline pipelines (pipelineId e) \<noteq> None"
    proof
      fix e assume "e \<in> set (queue ?st')"
      then consider "e \<in> set rest"
        | "e \<in> set (connections distance pipelines ?V' cur (nodes p))"
        unfolding q' by auto
      then show "findPipeline pipelines (pipelineId e) \<noteq> None"
      proof cases
        case 1
        then show ?thesis using known q by simp
      next
        case 2
        then have "nodeKey e \<in> connectionKeys distance pipelines (pipelineId cur) (nodes p)"
          using connections_keys[of distance pipelines ?V' cur "nodes p"] by blast
        from connectionKeys_known[OF this] show ?thesis by (simp add: nodeKey_def)
      qed
    qed
    have b: "S \<subseteq> set ?V' \<union> nodeKey ` set (queue ?st')"
      using seeds sub by blast
    have c: "connectionKeys distance pipelines (fst k) (nodes p')
          \<subseteq> set ?V' \<union> nodeKey ` set (queue ?st')"
      if "k \<in> set ?V'" "findPipeline pipelines (fst k) = Some p'" for k p'
    proof (cases "k = ?key")
      case True
      then have "p' = p" using that(2) p by simp
      then show ?thesis unfolding keys' using True by auto
    next
      case False
      then have "k \<in> set (visitedPipelineNodes st)" using that(1) by simp
      from closed[OF this that(2)] show ?thesis using sub by blast
    qed
    show ?thesis
      unfolding pendingInv_def v' using a b c by blast
  qed
qed

text \<open>A loop that ends on an empty queue has visited the seeded keys, and its visited keys
  are closed under propagation.\<close>

lemma finalState_closed:
  assumes "queue (finalState distance gvs tanks pipelines) = []"
  shows "nodeKey ` set (seedQueue distance tanks pipelines)
           \<subseteq> set (visitedPipelineNodes (finalState distance gvs tanks pipelines))"
    and "closedUnder distance pipelines
           (set (visitedPipelineNodes (finalState distance gvs tanks pipelines)))"
proof -
  let ?S = "nodeKey ` set (seedQueue distance tanks pipelines)"
  have "pendingInv distance pipelines ?S (finalState distance gvs tanks pipelines)"
    unfolding finalState_def
  proof (rule bfsLoop_invariant)
    show "pendingInv distance pipelines ?S (initialState distance tanks pipelines)"
      using seedQueue_known by (auto simp: pendingInv_def initialState_def)
  next
    fix s :: bfs_state
    assume "pendingInv distance pipelines ?S s" "queue s \<noteq> []"
    then show "pendingInv distance pipelines ?S
        (bfsIteration distance pipelines (closedValvesOf gvs) s)"
      by (rule bfsIteration_pendingInv)
  qed
  then show "?S \<subseteq> set (visitedPipelineNodes (finalState distance gvs tanks pipelines))"
    and "closedUnder distance pipelines
           (set (visitedPipelineNodes (finalState distance gvs tanks pipelines)))"
    using assms unfolding pendingInv_def closedUnder_def by auto
qed

text \<open>Whatever the loop visits lies in every closed set that holds the seeded keys.\<close>

lemma finalState_within:
  assumes closed: "closedUnder distance pipelines W"
    and seeds: "nodeKey ` set (seedQueue distance tanks pipelines) \<subseteq> W"
  shows "set (visitedPipelineNodes (finalState distance gvs tanks pipelines)) \<subseteq> W"
proof -
  let ?P = "\<lambda>st. set (visitedPipelineNodes st) \<subseteq> W \<and> nodeKey ` set (queue st) \<subseteq> W"
  have "?P (finalState distance gvs tanks pipelines)"
    unfolding finalState_def
  proof (rule bfsLoop_invariant)
    show "?P (initialState distance tanks pipelines)"
      using seeds by (simp add: initialState_def)
  next
    fix s :: bfs_state
    assume inv: "?P s" and ne: "queue s \<noteq> []"
    obtain cur rest where q: "queue s = cur # rest" using ne by (cases "queue s") auto
    let ?key = "(pipelineId cur, nodeIndex cur)"
    have key: "?key \<in> W" using inv q by (auto simp: nodeKey_def)
    show "?P (bfsIteration distance pipelines (closedValvesOf gvs) s)"
    proof (cases "findPipeline pipelines (pipelineId cur) = None
         \<or> ?key \<in> set (visitedPipelineNodes s)")
      case True
      show ?thesis
        unfolding bfsIteration_skip[OF q True] using inv q by auto
    next
      case False
      then obtain p where p: "findPipeline pipelines (pipelineId cur) = Some p"
        and fresh: "?key \<notin> set (visitedPipelineNodes s)"
        by auto
      have "connectionKeys distance pipelines (pipelineId cur) (nodes p) \<subseteq> W"
        using closed key p unfolding closedUnder_def by fastforce
      then have "nodeKey ` set (connections distance pipelines
          (visitedPipelineNodes s @ [?key]) cur (nodes p)) \<subseteq> W"
        unfolding connections_keys by blast
      then show ?thesis
        unfolding bfsIteration_process[OF q p fresh]
        using inv q key by (auto simp: image_Un)
    qed
  qed
  then show ?thesis by blast
qed

section \<open>The iteration cap against more sources\<close>

text \<open>The point to which \<open>distanceToSegment\<close> measures lies on the segment.\<close>

lemma distanceToSegment_point:
  "\<exists>t. 0 \<le> t \<and> t \<le> 1 \<and> distanceToSegment distance p s e
      = distance p \<lparr>lat = lat s + t * (lat e - lat s), lng = lng s + t * (lng e - lng s)\<rparr>"
proof -
  define param where "param = (if (lat e - lat s) * (lat e - lat s)
        + (lng e - lng s) * (lng e - lng s) \<noteq> 0
      then ((lat p - lat s) * (lat e - lat s) + (lng p - lng s) * (lng e - lng s))
        / ((lat e - lat s) * (lat e - lat s) + (lng e - lng s) * (lng e - lng s))
      else - 1)"
  have d: "distanceToSegment distance p s e =
      (if param < 0 then distance p \<lparr>lat = lat s, lng = lng s\<rparr>
       else if param > 1 then distance p \<lparr>lat = lat e, lng = lng e\<rparr>
       else distance p \<lparr>lat = lat s + param * (lat e - lat s),
                         lng = lng s + param * (lng e - lng s)\<rparr>)"
    by (simp add: distanceToSegment_def Let_def param_def)
  consider "param < 0" | "param > 1" | "0 \<le> param" "param \<le> 1" by linarith
  then show ?thesis
  proof cases
    case 1
    then show ?thesis using d by (intro exI[of _ 0]) simp
  next
    case 2
    then show ?thesis using d by (intro exI[of _ 1]) simp
  next
    case 3
    then show ?thesis using d by (intro exI[of _ param]) simp
  qed
qed

lemma between_bounds:
  fixes a b t :: real
  assumes "0 \<le> t" "t \<le> 1"
  shows "a \<le> h \<Longrightarrow> b \<le> h \<Longrightarrow> a + t * (b - a) \<le> h"
    and "l \<le> a \<Longrightarrow> l \<le> b \<Longrightarrow> l \<le> a + t * (b - a)"
proof -
  have eq: "a + t * (b - a) = (1 - t) * a + t * b" by (simp add: algebra_simps)
  show "a + t * (b - a) \<le> h" if "a \<le> h" "b \<le> h"
  proof -
    have "(1 - t) * a \<le> (1 - t) * h" "t * b \<le> t * h"
      using assms that by (simp_all add: mult_left_mono)
    then have "(1 - t) * a + t * b \<le> (1 - t) * h + t * h" by linarith
    then show ?thesis by (simp add: eq algebra_simps)
  qed
  show "l \<le> a + t * (b - a)" if "l \<le> a" "l \<le> b"
  proof -
    have "(1 - t) * l \<le> (1 - t) * a" "t * l \<le> t * b"
      using assms that by (simp_all add: mult_left_mono)
    then have "(1 - t) * l + t * l \<le> (1 - t) * a + t * b" by linarith
    then show ?thesis by (simp add: eq algebra_simps)
  qed
qed

text \<open>Points whose latitudes differ by seven degrees or more are not connected, under the
  example distance; neither is a point to a segment that lies wholly that far away.\<close>

lemma flatDistance_far:
  assumes "lat p \<le> 23" "30 \<le> lat q"
  shows "\<not> flatDistance p q < CONNECT_DISTANCE" "\<not> flatDistance q p < CONNECT_DISTANCE"
proof -
  have "7 \<le> \<bar>lat p - lat q\<bar> + \<bar>lng p - lng q\<bar>"
       "7 \<le> \<bar>lat q - lat p\<bar> + \<bar>lng q - lng p\<bar>"
    using assms by linarith+
  then have "111000 * 7 \<le> flatDistance p q" "111000 * 7 \<le> flatDistance q p"
    unfolding flatDistance_def by simp_all
  then show "\<not> flatDistance p q < CONNECT_DISTANCE" "\<not> flatDistance q p < CONNECT_DISTANCE"
    by (simp_all add: CONNECT_DISTANCE_def)
qed

lemma distanceToSegment_far:
  "lat p \<le> 23 \<Longrightarrow> 30 \<le> lat s \<Longrightarrow> 30 \<le> lat e \<Longrightarrow>
     \<not> distanceToSegment flatDistance p s e < CONNECT_DISTANCE"
  "30 \<le> lat p \<Longrightarrow> lat s \<le> 23 \<Longrightarrow> lat e \<le> 23 \<Longrightarrow>
     \<not> distanceToSegment flatDistance p s e < CONNECT_DISTANCE"
proof -
  obtain t where t: "0 \<le> t" "t \<le> 1" "distanceToSegment flatDistance p s e
      = flatDistance p \<lparr>lat = lat s + t * (lat e - lat s), lng = lng s + t * (lng e - lng s)\<rparr>"
    using distanceToSegment_point[of flatDistance p s e] by blast
  show "\<not> distanceToSegment flatDistance p s e < CONNECT_DISTANCE"
    if "lat p \<le> 23" "30 \<le> lat s" "30 \<le> lat e"
    unfolding t(3) using between_bounds(2)[OF t(1,2), of 30 "lat s" "lat e"] that
    by (intro flatDistance_far(1)[of p]) simp_all
  show "\<not> distanceToSegment flatDistance p s e < CONNECT_DISTANCE"
    if "30 \<le> lat p" "lat s \<le> 23" "lat e \<le> 23"
    unfolding t(3) using between_bounds(1)[OF t(1,2), of "lat s" 23 "lat e"] that
    by (intro flatDistance_far(2)[of _ p]) simp_all
qed

lemma connectionsTo_far:
  assumes low: "\<forall>c\<in>set ns. lat c \<le> 23" and high: "\<forall>x\<in>set (nodes other). 30 \<le> lat x"
  shows "connectionsTo flatDistance visited cur ns other = []"
proof -
  have at: "30 \<le> lat (nodes other ! k)" if "k < length (nodes other)" for k
    using high that by simp
  have seg: "30 \<le> lat (nodes other ! k) \<and> 30 \<le> lat (nodes other ! (k + 1))"
    if "k < length (nodes other) - 1" for k
    using high that by simp
  have cur: "lat (ns ! i) \<le> 23 \<and> lat (ns ! (i + 1)) \<le> 23" if "i < length ns - 1" for i
    using low that by simp
  have "e \<notin> set (connectionsTo flatDistance visited cur ns other)" for e
    unfolding connectionsTo_member
    using low at seg cur flatDistance_far(1) distanceToSegment_far by blast
  then show ?thesis by (cases "connectionsTo flatDistance visited cur ns other") auto
qed

lemma seedPipeline_far:
  assumes low: "latitude tank \<le> 23" and high: "\<forall>x\<in>set (nodes p). 30 \<le> lat x"
  shows "seedPipeline flatDistance tank p = []"
proof -
  have pos: "lat (position tank) \<le> 23" using low by (simp add: position_def)
  have at: "30 \<le> lat (nodes p ! k)" if "k < length (nodes p)" for k
    using high that by simp
  have seg: "30 \<le> lat (nodes p ! k) \<and> 30 \<le> lat (nodes p ! (k + 1))"
    if "k < length (nodes p) - 1" for k
    using high that by simp
  have "connectNode flatDistance tank (nodes p) = None"
    unfolding connectNode_def find_None_iff using pos at flatDistance_far(1) by auto
  moreover have "connectSegment flatDistance tank (nodes p) = None"
    unfolding connectSegment_def find_None_iff using pos seg distanceToSegment_far(1) by auto
  ultimately show ?thesis by (simp add: seedPipeline_def)
qed

text \<open>When every node of the other pipeline is within the connect distance of every
  current node and unvisited, the node-to-node loop alone pushes an entry for each pair.\<close>

lemma connectionsTo_many:
  assumes "\<forall>c\<in>set ns. \<forall>j<length (nodes other).
      distance c (nodes other ! j) < CONNECT_DISTANCE \<and> (pipeline_id other, j) \<notin> set visited"
  shows "length ns * length (nodes other)
           \<le> length (connectionsTo distance visited cur ns other)"
proof -
  let ?n = "length (nodes other)"
  let ?push = "\<lambda>k. \<lparr>pipelineId = pipeline_id other, nodeIndex = k, sourceTank = sourceTank cur\<rparr>"
  let ?F = "\<lambda>currentNode.
             map ?push (filter (\<lambda>otherIdx.
                 distance currentNode (nodes other ! otherIdx) < CONNECT_DISTANCE
                   \<and> (pipeline_id other, otherIdx) \<notin> set visited)
               [0..<?n])
             @
             map ?push (filter (\<lambda>i.
                 distanceToSegment distance currentNode (nodes other ! i) (nodes other ! (i + 1))
                   < CONNECT_DISTANCE \<and> (pipeline_id other, i) \<notin> set visited)
               [0..<?n - 1])"
  have each: "?n \<le> length (?F c)" if "c \<in> set ns" for c
  proof -
    have "filter (\<lambda>otherIdx. distance c (nodes other ! otherIdx) < CONNECT_DISTANCE
                   \<and> (pipeline_id other, otherIdx) \<notin> set visited) [0..<?n] = [0..<?n]"
      using assms that by (intro filter_True) auto
    then show ?thesis by simp
  qed
  have sum: "length xs * ?n \<le> length (concat (map ?F xs))" if "set xs \<subseteq> set ns" for xs
    using that
  proof (induction xs)
    case Nil
    then show ?case by simp
  next
    case (Cons x xs)
    then have "?n \<le> length (?F x)" "length xs * ?n \<le> length (concat (map ?F xs))"
      using each by auto
    then show ?case by simp
  qed
  have "length ns * ?n \<le> length (concat (map ?F ns))" using sum[of ns] by simp
  then show ?thesis
    unfolding connectionsTo_def Let_def by simp
qed

lemma connectionsTo_pipelineId:
  "e \<in> set (connectionsTo distance visited cur ns other) \<Longrightarrow> pipelineId e = pipeline_id other"
  unfolding connectionsTo_member by auto

text \<open>
  A segment of a pipeline none of whose entries is among the next entries of the queue,
  as many as the cap still allows to be dequeued, stays as it is to the end of the loop:
  what is pushed comes behind these entries.
\<close>

lemma bfsLoop_starved:
  assumes "key \<notin> set (visitedSegments st)"
    and "maxIterations - iterations st \<le> length (queue st)"
    and "\<forall>e\<in>set (take (maxIterations - iterations st) (queue st)). pipelineId e \<noteq> fst key"
  shows "key \<notin> set (visitedSegments (bfsLoop distance pipelines closedValves st))"
proof -
  let ?P = "\<lambda>s. key \<notin> set (visitedSegments s)
      \<and> maxIterations - iterations s \<le> length (queue s)
      \<and> (\<forall>e\<in>set (take (maxIterations - iterations s) (queue s)). pipelineId e \<noteq> fst key)"
  have "?P (bfsLoop distance pipelines closedValves st)"
  proof (rule bfsLoop_invariant)
    show "?P st" using assms by simp
  next
    fix s :: bfs_state
    assume inv: "?P s" and ne: "queue s \<noteq> []" and it: "iterations s < maxIterations"
    obtain cur rest where q: "queue s = cur # rest" using ne by (cases "queue s") auto
    let ?s' = "bfsIteration distance pipelines closedValves s"
    obtain fuel where fuel: "maxIterations - iterations s = Suc fuel"
      using it by (cases "maxIterations - iterations s") auto
    have fuel': "maxIterations - iterations ?s' = fuel"
      using fuel by (simp add: bfsIteration_iterations)
    have cur: "pipelineId cur \<noteq> fst key" using inv q fuel by simp
    have rest: "fuel \<le> length rest" "\<forall>e\<in>set (take fuel rest). pipelineId e \<noteq> fst key"
      using inv q fuel by simp_all
    have "key \<notin> set (visitedSegments ?s') \<and> (\<exists>pushed. queue ?s' = rest @ pushed)"
    proof (cases "findPipeline pipelines (pipelineId cur) = None
         \<or> (pipelineId cur, nodeIndex cur) \<in> set (visitedPipelineNodes s)")
      case True
      show ?thesis unfolding bfsIteration_skip[OF q True] using inv by simp
    next
      case False
      then obtain p where p: "findPipeline pipelines (pipelineId cur) = Some p"
        and fresh: "(pipelineId cur, nodeIndex cur) \<notin> set (visitedPipelineNodes s)"
        by auto
      have "set (visitedSegments ?s') \<subseteq> set (visitedSegments s)
          \<union> Pair (pipelineId cur) ` set [0..<length (nodes p) - 1]"
        unfolding bfsIteration_fresh(1)[OF q p fresh] using scanSegments_keys by blast
      then have "key \<notin> set (visitedSegments ?s')" using inv cur by auto
      then show ?thesis using bfsIteration_process(2)[OF q p fresh] by blast
    qed
    then obtain pushed where s': "key \<notin> set (visitedSegments ?s')" "queue ?s' = rest @ pushed"
      by blast
    show "?P ?s'"
      unfolding fuel' s'(2) using s'(1) rest by simp
  qed
  then show ?thesis by blast
qed

text \<open>The example of the cap.\<close>

lemma cap_ids:
  "pipeline_id capDenseB = 15" "pipeline_id capDenseA = 14" "pipeline_id capFirst = 11"
  "pipeline_id capSecond = 12" "pipeline_id capThird = 13"
  by (simp_all add: capDenseB_def capDenseA_def capFirst_def capSecond_def capThird_def)

lemma cap_nodes:
  "nodes capFirst = [\<lparr>lat = 20, lng = 78\<rparr>, \<lparr>lat = 21, lng = 78\<rparr>]"
  "nodes capSecond = [\<lparr>lat = 21, lng = 78\<rparr>, \<lparr>lat = 22, lng = 78\<rparr>]"
  "nodes capThird = [\<lparr>lat = 22, lng = 78\<rparr>, \<lparr>lat = 23, lng = 78\<rparr>]"
  by (simp_all add: capFirst_def capSecond_def capThird_def)

lemma cap_dense_high:
  "\<forall>x\<in>set (nodes capDenseA). 30 \<le> lat x" "\<forall>x\<in>set (nodes capDenseB). 30 \<le> lat x"
  by (auto simp: capDenseA_def capDenseB_def)

lemma cap_dense_far:
  "\<forall>c\<in>set ns. lat c \<le> 23 \<Longrightarrow> connectionsTo flatDistance visited cur ns capDenseA = []"
  "\<forall>c\<in>set ns. lat c \<le> 23 \<Longrightarrow> connectionsTo flatDistance visited cur ns capDenseB = []"
  using cap_dense_high by (simp_all add: connectionsTo_far)

lemma cap_seed:
  "seedQueue flatDistance [capTank] capPipelines
     = [\<lparr>pipelineId = 11, nodeIndex = 0, sourceTank = ''A''\<rparr>,
        \<lparr>pipelineId = 11, nodeIndex = 0, sourceTank = ''A''\<rparr>]"
proof -
  have "seedPipeline flatDistance capTank capDenseA = []"
       "seedPipeline flatDistance capTank capDenseB = []"
    using cap_dense_high by (simp_all add: seedPipeline_far capTank_def)
  moreover have "seedPipeline flatDistance capTank capFirst
     = [\<lparr>pipelineId = 11, nodeIndex = 0, sourceTank = ''A''\<rparr>,
        \<lparr>pipelineId = 11, nodeIndex = 0, sourceTank = ''A''\<rparr>]"
       "seedPipeline flatDistance capTank capSecond = []"
       "seedPipeline flatDistance capTank capThird = []"
    by (simp_all add: seedPipeline_def connectNode_def connectSegment_def cap_ids cap_nodes
        capTank_def position_def flatDistance_def distanceToSegment_def CONNECT_DISTANCE_def
        Let_def)
  ultimately show ?thesis by (simp add: seedQueue_def capPipelines_def)
qed

lemma cap_flowing:
  "segments (flowData (finalState flatDistance None [capTank] capPipelines))
     = [\<lparr>fs_pipelineId = 11, fs_start = \<lparr>lat = 20, lng = 78\<rparr>,
         fs_end = \<lparr>lat = 21, lng = 78\<rparr>, fs_status = ''flowing'', fs_sourceTank = ''A''\<rparr>,
        \<lparr>fs_pipelineId = 12, fs_start = \<lparr>lat = 21, lng = 78\<rparr>,
         fs_end = \<lparr>lat = 22, lng = 78\<rparr>, fs_status = ''flowing'', fs_sourceTank = ''A''\<rparr>,
        \<lparr>fs_pipelineId = 13, fs_start = \<lparr>lat = 22, lng = 78\<rparr>,
         fs_end = \<lparr>lat = 23, lng = 78\<rparr>, fs_status = ''flowing'', fs_sourceTank = ''A''\<rparr>]"
  unfolding finalState_def initialState_def cap_seed closedValvesOf_def
  by (simp add: bfsLoop_step bfsLoop_empty bfsIteration_def findPipeline_def capPipelines_def
      cap_ids cap_nodes connections_def cap_dense_far
      connectionsTo_def[of _ _ _ _ capFirst] connectionsTo_def[of _ _ _ _ capSecond]
      connectionsTo_def[of _ _ _ _ capThird]
      flatDistance_def distanceToSegment_def CONNECT_DISTANCE_def VALVE_BLOCK_DISTANCE_def
      maxIterations_def set_add_def Let_def)

lemma find_upt_first: "0 < n \<Longrightarrow> P 0 \<Longrightarrow> find P [0..<n] = Some 0"
  by (simp add: upt_conv_Cons)

lemma take_append_short: "n \<le> length xs \<Longrightarrow> set (take n (xs @ ys)) \<subseteq> set xs"
  by (simp add: set_take_subset)

lemma cap_dense_nth:
  "j < 100 \<Longrightarrow> nodes capDenseA ! j = \<lparr>lat = 30 + real j / 1000000, lng = 78\<rparr>"
  "j < 100 \<Longrightarrow> nodes capDenseB ! j = \<lparr>lat = 30 + 2 / 10000 + real j / 1000000, lng = 78\<rparr>"
  "length (nodes capDenseA) = 100" "length (nodes capDenseB) = 100"
  by (simp_all add: capDenseA_def capDenseB_def)

lemma cap_seed_added:
  "seedQueue flatDistance [capTank, capTankAdded] capPipelines
     = [\<lparr>pipelineId = 11, nodeIndex = 0, sourceTank = ''A''\<rparr>,
        \<lparr>pipelineId = 11, nodeIndex = 0, sourceTank = ''A''\<rparr>,
        \<lparr>pipelineId = 15, nodeIndex = 0, sourceTank = ''B''\<rparr>,
        \<lparr>pipelineId = 15, nodeIndex = 0, sourceTank = ''B''\<rparr>,
        \<lparr>pipelineId = 14, nodeIndex = 0, sourceTank = ''B''\<rparr>,
        \<lparr>pipelineId = 14, nodeIndex = 0, sourceTank = ''B''\<rparr>]"
proof -
  have "seedPipeline flatDistance capTankAdded capFirst = []"
       "seedPipeline flatDistance capTankAdded capSecond = []"
       "seedPipeline flatDistance capTankAdded capThird = []"
    by (simp_all add: seedPipeline_def connectNode_def connectSegment_def cap_ids cap_nodes
        capTankAdded_def position_def flatDistance_def distanceToSegment_def
        CONNECT_DISTANCE_def Let_def)
  moreover have "connectNode flatDistance capTankAdded (nodes capDenseA) = Some 0"
       "connectNode flatDistance capTankAdded (nodes capDenseB) = Some 0"
    unfolding connectNode_def
    by (rule find_upt_first;
        simp add: cap_dense_nth capTankAdded_def position_def flatDistance_def
          CONNECT_DISTANCE_def)+
  moreover have "connectSegment flatDistance capTankAdded (nodes capDenseA) = Some 0"
       "connectSegment flatDistance capTankAdded (nodes capDenseB) = Some 0"
    unfolding connectSegment_def
    by (rule find_upt_first;
        simp add: cap_dense_nth capTankAdded_def position_def flatDistance_def
          distanceToSegment_def CONNECT_DISTANCE_def Let_def)+
  ultimately have "seedPipeline flatDistance capTankAdded capDenseA
        = [\<lparr>pipelineId = 14, nodeIndex = 0, sourceTank = ''B''\<rparr>,
           \<lparr>pipelineId = 14, nodeIndex = 0, sourceTank = ''B''\<rparr>]"
      "seedPipeline flatDistance capTankAdded capDenseB
        = [\<lparr>pipelineId = 15, nodeIndex = 0, sourceTank = ''B''\<rparr>,
           \<lparr>pipelineId = 15, nodeIndex = 0, sourceTank = ''B''\<rparr>]"
      "concat (map (seedPipeline flatDistance capTankAdded) [capFirst, capSecond, capThird]) = []"
    by (simp_all add: seedPipeline_def cap_ids capTankAdded_def)
  moreover have "concat (map (seedPipeline flatDistance capTank) capPipelines)
      = [\<lparr>pipelineId = 11, nodeIndex = 0, sourceTank = ''A''\<rparr>,
         \<lparr>pipelineId = 11, nodeIndex = 0, sourceTank = ''A''\<rparr>]"
    using cap_seed by (simp add: seedQueue_def)
  ultimately show ?thesis by (simp add: seedQueue_def capPipelines_def)
qed

text \<open>Every node of the one dense pipeline is within the connect distance of every node
  of the other.\<close>

lemma cap_dense_near:
  assumes "c \<in> set (nodes capDenseB)" and "j < length (nodes capDenseA)"
  shows "flatDistance c (nodes capDenseA ! j) < CONNECT_DISTANCE"
proof -
  obtain i where i: "i < 100" "c = \<lparr>lat = 30 + 2 / 10000 + real i / 1000000, lng = 78\<rparr>"
    using assms(1) by (auto simp: capDenseB_def)
  have j: "j < 100" using assms(2) by (simp add: cap_dense_nth)
  have "real i < 100" "real j < 100" using i(1) j by simp_all
  then have "\<bar>2 / 10000 + real i / 1000000 - real j / 1000000\<bar> < 4 / 10000"
    by (simp add: abs_less_iff field_simps)
  then have "111000 * \<bar>2 / 10000 + real i / 1000000 - real j / 1000000\<bar> < 111000 * (4 / 10000)"
    by (intro mult_strict_left_mono) simp_all
  then show ?thesis
    using j by (simp add: i(2) cap_dense_nth flatDistance_def CONNECT_DISTANCE_def)
qed

text \<open>With the second tank the loop spends its 10,000 dequeues on the entries the two
  dense pipelines push for each other, and never dequeues an entry of the third pipeline
  of the chain.\<close>

lemma cap_starved:
  "(13, i) \<notin> set (visitedSegments
      (finalState flatDistance None [capTank, capTankAdded] capPipelines))"
proof -
  let ?it = "bfsIteration flatDistance capPipelines []"
  let ?loop = "bfsLoop flatDistance capPipelines []"
  let ?x = "\<lparr>pipelineId = 11, nodeIndex = 0, sourceTank = ''A''\<rparr>"
  let ?y = "\<lparr>pipelineId = 12, nodeIndex = 0, sourceTank = ''A''\<rparr>"
  let ?d = "\<lparr>pipelineId = 15, nodeIndex = 0, sourceTank = ''B''\<rparr>"
  let ?c = "\<lparr>pipelineId = 14, nodeIndex = 0, sourceTank = ''B''\<rparr>"
  define s0 where "s0 = initialState flatDistance [capTank, capTankAdded] capPipelines"
  define s1 where "s1 = ?it s0"
  define s2 where "s2 = ?it s1"
  define s3 where "s3 = ?it s2"
  have find11: "findPipeline capPipelines (pipelineId ?x) = Some capFirst"
    and find15: "findPipeline capPipelines (pipelineId ?d) = Some capDenseB"
    by (simp_all add: findPipeline_def capPipelines_def cap_ids)
  have q0: "queue s0 = ?x # [?x, ?d, ?d, ?c, ?c]"
    and v0: "visitedPipelineNodes s0 = []" and vs0: "visitedSegments s0 = []"
    and i0: "iterations s0 = 0"
    by (simp_all add: s0_def initialState_def cap_seed_added)
  have fresh0: "(pipelineId ?x, nodeIndex ?x) \<notin> set (visitedPipelineNodes s0)"
    by (simp add: v0)
  have pushed1: "connections flatDistance capPipelines [(11, 0)] ?x (nodes capFirst) = [?y, ?y, ?y]"
    by (simp add: connections_def capPipelines_def cap_ids cap_nodes cap_dense_far
      connectionsTo_def[of _ _ _ _ capSecond] connectionsTo_def[of _ _ _ _ capThird]
      flatDistance_def distanceToSegment_def CONNECT_DISTANCE_def Let_def)
  have q1: "queue s1 = ?x # [?d, ?d, ?c, ?c, ?y, ?y, ?y]"
    and v1: "visitedPipelineNodes s1 = [(11, 0)]"
    using bfsIteration_process[OF q0 find11 fresh0, of flatDistance "[]"] pushed1
    by (simp_all add: s1_def v0)
  have "set (visitedSegments s1) \<subseteq> Pair 11 ` UNIV"
    unfolding s1_def bfsIteration_fresh(1)[OF q0 find11 fresh0]
    using scanSegments_keys[of s0 flatDistance "[]" ?x "nodes capFirst"
        "[0..<length (nodes capFirst) - 1]"]
    by (auto simp: vs0)
  then have vs1: "(13, i) \<notin> set (visitedSegments s1)" by auto
  have i1: "iterations s1 = 1" by (simp add: s1_def bfsIteration_iterations i0)
  have s2: "s2 = s1\<lparr>iterations := iterations s1 + 1, queue := [?d, ?d, ?c, ?c, ?y, ?y, ?y]\<rparr>"
    unfolding s2_def by (rule bfsIteration_skip[OF q1]) (simp add: v1)
  have q2: "queue s2 = ?d # [?d, ?c, ?c, ?y, ?y, ?y]"
    and v2: "visitedPipelineNodes s2 = [(11, 0)]" and i2: "iterations s2 = 2"
    and vs2: "(13, i) \<notin> set (visitedSegments s2)"
    using vs1 by (simp_all add: s2 v1 i1)
  have fresh2: "(pipelineId ?d, nodeIndex ?d) \<notin> set (visitedPipelineNodes s2)"
    by (simp add: v2)
  define big where "big = connectionsTo flatDistance [(11, 0), (15, 0)] ?d (nodes capDenseB) capDenseA"
  have "length (nodes capDenseB) * length (nodes capDenseA) \<le> length big"
    unfolding big_def
    by (rule connectionsTo_many) (simp add: cap_dense_near cap_ids)
  then have big_length: "10000 \<le> length big" by (simp add: cap_dense_nth)
  have big_ids: "\<forall>e\<in>set big. pipelineId e = 14"
    unfolding big_def using connectionsTo_pipelineId cap_ids(2) by metis
  obtain others where pushed3:
    "connections flatDistance capPipelines [(11, 0), (15, 0)] ?d (nodes capDenseB) = big @ others"
    by (simp add: connections_def capPipelines_def cap_ids big_def)
  have q3: "queue s3 = ([?d, ?c, ?c, ?y, ?y, ?y] @ big) @ others"
    using bfsIteration_process(2)[OF q2 find15 fresh2, of flatDistance "[]"] pushed3
    by (simp add: s3_def v2)
  have "set (visitedSegments s3) \<subseteq> set (visitedSegments s2) \<union> Pair 15 ` UNIV"
    unfolding s3_def bfsIteration_fresh(1)[OF q2 find15 fresh2]
    using scanSegments_keys[of s2 flatDistance "[]" ?d "nodes capDenseB"
        "[0..<length (nodes capDenseB) - 1]"]
    by auto
  then have vs3: "(13, i) \<notin> set (visitedSegments s3)" using vs2 by auto
  have i3: "iterations s3 = 3" by (simp add: s3_def bfsIteration_iterations i2)
  have "set (take (maxIterations - iterations s3) (queue s3))
      \<subseteq> set ([?d, ?c, ?c, ?y, ?y, ?y] @ big)"
    unfolding q3 using big_length by (intro take_append_short) (simp add: i3 maxIterations_def)
  then have ahead: "\<forall>e\<in>set (take (maxIterations - iterations s3) (queue s3)).
      pipelineId e \<noteq> fst (13 :: int, i)"
    using big_ids by auto
  have enough: "maxIterations - iterations s3 \<le> length (queue s3)"
    using big_length by (simp add: q3 i3 maxIterations_def)
  have "?loop s0 = ?loop s1"
    unfolding s1_def by (rule bfsLoop_step) (simp_all add: q0 i0 maxIterations_def)
  also have "\<dots> = ?loop s2"
    unfolding s2_def by (rule bfsLoop_step) (simp_all add: q1 i1 maxIterations_def)
  also have "\<dots> = ?loop s3"
    unfolding s3_def by (rule bfsLoop_step) (simp_all add: q2 i2 maxIterations_def)
  finally have "?loop s0 = ?loop s3" .
  moreover have "(13, i) \<notin> set (visitedSegments (?loop s3))"
    using vs3 enough ahead by (rule bfsLoop_starved)
  ultimately show ?thesis
    by (simp add: finalState_def closedValvesOf_def s0_def)
qed

text \<open>
  C4, as the claim states it, fails: with the tank on the chain alone, the segment of its
  third pipeline is flowing; with the second tank added, valves and pipelines the same,
  the 10,000 dequeues are used up before the third pipeline is reached, and no segment of
  it is in the flowing list.
\<close>

theorem monotonic_source_cap_counterexample:
  "\<lparr>fs_pipelineId = 13, fs_start = \<lparr>lat = 22, lng = 78\<rparr>, fs_end = \<lparr>lat = 23, lng = 78\<rparr>,
     fs_status = ''flowing'', fs_sourceTank = ''A''\<rparr>
     \<in> set (segments (computeMultiTankBFS flatDistance None [capTank] capPipelines))
   \<and> 13 \<notin> fs_pipelineId `
       set (segments (computeMultiTankBFS flatDistance None [capTank, capTankAdded] capPipelines))"
proof -
  let ?s = "finalState flatDistance None [capTank, capTankAdded] capPipelines"
  have before: "\<lparr>fs_pipelineId = 13, fs_start = \<lparr>lat = 22, lng = 78\<rparr>,
      fs_end = \<lparr>lat = 23, lng = 78\<rparr>, fs_status = ''flowing'', fs_sourceTank = ''A''\<rparr>
     \<in> set (segments (computeMultiTankBFS flatDistance None [capTank] capPipelines))"
    unfolding computeMultiTankBFS_lists[THEN conjunct1] cap_flowing by simp
  have recs: "list_all2 (flowingRecord flatDistance capPipelines (closedValvesOf None))
      (visitedSegments ?s) (segments (flowData ?s))"
    using finalState_recordsInv[of flatDistance capPipelines None "[capTank, capTankAdded]"]
    by (simp add: recordsInv_def)
  have "fs_pipelineId r \<noteq> 13" if r: "r \<in> set (segments (flowData ?s))" for r
  proof -
    obtain key where key: "key \<in> set (visitedSegments ?s)"
        "flowingRecord flatDistance capPipelines (closedValvesOf None) key r"
      using list_all2_right_member[OF recs r] by blast
    obtain p where p: "findPipeline capPipelines (fst key) = Some p"
      using key(2) by (auto simp: flowingRecord_def split: option.splits)
    have a: "r = \<lparr>fs_pipelineId = fst key, fs_start = nodes p ! snd key,
               fs_end = nodes p ! Suc (snd key), fs_status = ''flowing'',
               fs_sourceTank = fs_sourceTank r\<rparr>"
      using key(2) p by (simp add: flowingRecord_def)
    have "fs_pipelineId r = fst key" by (subst a, simp)
    moreover have "fst key \<noteq> 13"
    proof
      assume "fst key = 13"
      then have "key = (13, snd key)" by (simp add: prod_eq_iff)
      then have "(13, snd key) \<in> set (visitedSegments ?s)" using key(1) by simp
      then show False using cap_starved[of "snd key"] by simp
    qed
    ultimately show ?thesis by simp
  qed
  then have after: "13 \<notin> fs_pipelineId ` set (segments
      (computeMultiTankBFS flatDistance None [capTank, capTankAdded] capPipelines))"
    unfolding computeMultiTankBFS_lists[THEN conjunct1] by auto
  show ?thesis using before after by (rule conjI)
qed

section \<open>More sources, more flow\<close>

lemma list_all2_left_member:
  "list_all2 P xs ys \<Longrightarrow> x \<in> set xs \<Longrightarrow> \<exists>y\<in>set ys. P x y"
  by (induction rule: list_all2_induct) auto

lemma scans_mono:
  assumes "distinct (visitedPipelineNodes s1)"
    and "set (visitedPipelineNodes s1) \<subseteq> set (visitedPipelineNodes s2)"
  shows "scans s1 q \<le> scans s2 q"
proof -
  let ?f = "filter (\<lambda>k. fst k = q)"
  have "distinct (?f (visitedPipelineNodes s1))"
    using assms(1) by (rule distinct_filter)
  then have "scans s1 q = card (set (?f (visitedPipelineNodes s1)))"
    unfolding scans_def by (rule distinct_card[symmetric])
  also have "\<dots> \<le> card (set (?f (visitedPipelineNodes s2)))"
    using assms(2) by (intro card_mono) auto
  also have "\<dots> \<le> scans s2 q"
    unfolding scans_def by (rule card_length)
  finally show ?thesis .
qed

lemma reached_mono:
  "reached distance pipelines closedValves m b key \<Longrightarrow> m \<le> m' \<Longrightarrow>
     reached distance pipelines closedValves m' b key"
  by (auto simp: reached_def split: option.splits)

lemma seedQueue_mono:
  "set tanks \<subseteq> set tanks' \<Longrightarrow>
     set (seedQueue distance tanks pipelines) \<subseteq> set (seedQueue distance tanks' pipelines)"
  by (auto simp: seedQueue_def)

lemma ex_two_tanks_finalState:
  "finalState flatDistance (Some [exValve]) [exTank, exTankMid] [exPipeline] =
     \<lparr>flowData =
        \<lparr>segments =
           [\<lparr>fs_pipelineId = 1, fs_start = \<lparr>lat = 17, lng = 78\<rparr>,
             fs_end = \<lparr>lat = 17.001, lng = 78\<rparr>,
             fs_status = ''flowing'', fs_sourceTank = ''T''\<rparr>],
         blockedSegments =
           [\<lparr>bs_pipelineId = 1, bs_start = \<lparr>lat = 17.001, lng = 78\<rparr>,
             bs_end = \<lparr>lat = 17.002, lng = 78\<rparr>,
             bs_status = ''blocked'', bs_blockedBy = ''V''\<rparr>],
         totalSegments = 0, pipelineStatus = [(1, ''flowing'')]\<rparr>,
      visitedSegments = [(1, 0)], blockedSegmentsSet = [(1, 1)],
      queue = [], visitedPipelineNodes = [(1, 0), (1, 1)],
      iterations = 4\<rparr>"
  by code_simp

text \<open>
  C4, amended. If the computation with the larger collection of active tanks ends on an
  empty queue, that is, it is not cut off by the cap of 10000 dequeues, then every
  segment that is flowing for the smaller collection is flowing for the larger one, with
  the same pipeline id and end points in the flowing list; valves and pipelines are the
  same in both computations. Adding one tank is the case of a larger collection with one
  more element; the source tank recorded for a segment may change.
\<close>

theorem monotonic_source_when_complete:
  assumes more: "set tanks \<subseteq> set tanks'"
    and complete: "queue (finalState distance gvs tanks' pipelines) = []"
  shows "set (visitedSegments (finalState distance gvs tanks pipelines))
           \<subseteq> set (visitedSegments (finalState distance gvs tanks' pipelines))
   \<and> (\<forall>r\<in>set (segments (computeMultiTankBFS distance gvs tanks pipelines)).
        \<exists>r'\<in>set (segments (computeMultiTankBFS distance gvs tanks' pipelines)).
          fs_pipelineId r' = fs_pipelineId r \<and> fs_start r' = fs_start r \<and> fs_end r' = fs_end r)"
proof -
  let ?s1 = "finalState distance gvs tanks pipelines"
  let ?s2 = "finalState distance gvs tanks' pipelines"
  let ?cvs = "closedValvesOf gvs"
  have seeds: "nodeKey ` set (seedQueue distance tanks pipelines)
      \<subseteq> set (visitedPipelineNodes ?s2)"
    using finalState_closed(1)[OF complete] seedQueue_mono[OF more, of distance pipelines]
    by blast
  have nodes: "set (visitedPipelineNodes ?s1) \<subseteq> set (visitedPipelineNodes ?s2)"
    by (rule finalState_within[OF finalState_closed(2)[OF complete] seeds])
  have inv1: "scanInv distance pipelines ?cvs ?s1" and inv2: "scanInv distance pipelines ?cvs ?s2"
    by (rule finalState_scanInv)+
  have d1: "distinct (visitedPipelineNodes ?s1)"
    using inv1 unfolding scanInv_def by blast
  have keys: "key \<in> set (visitedSegments ?s2)" if "key \<in> set (visitedSegments ?s1)" for key
  proof -
    have "reached distance pipelines ?cvs (scans ?s1 (fst key)) False key"
      using inv1 that unfolding scanInv_def by blast
    then have "reached distance pipelines ?cvs (scans ?s2 (fst key)) False key"
      using scans_mono[OF d1 nodes] by (rule reached_mono)
    then show ?thesis
      using inv2 unfolding scanInv_def by blast
  qed
  have recs1: "list_all2 (flowingRecord distance pipelines ?cvs)
      (visitedSegments ?s1) (segments (computeMultiTankBFS distance gvs tanks pipelines))"
    and recs2: "list_all2 (flowingRecord distance pipelines ?cvs)
      (visitedSegments ?s2) (segments (computeMultiTankBFS distance gvs tanks' pipelines))"
    using finalState_recordsInv[of distance pipelines gvs]
    by (simp_all add: recordsInv_def computeMultiTankBFS_lists)
  have recs: "\<exists>r'\<in>set (segments (computeMultiTankBFS distance gvs tanks' pipelines)).
          fs_pipelineId r' = fs_pipelineId r \<and> fs_start r' = fs_start r \<and> fs_end r' = fs_end r"
    if r: "r \<in> set (segments (computeMultiTankBFS distance gvs tanks pipelines))" for r
  proof -
    obtain key where key: "key \<in> set (visitedSegments ?s1)"
        "flowingRecord distance pipelines ?cvs key r"
      using list_all2_right_member[OF recs1 r] by blast
    obtain r' where r': "r' \<in> set (segments (computeMultiTankBFS distance gvs tanks' pipelines))"
        "flowingRecord distance pipelines ?cvs key r'"
      using list_all2_left_member[OF recs2 keys[OF key(1)]] by blast
    obtain p where p: "findPipeline pipelines (fst key) = Some p"
      using key(2) by (auto simp: flowingRecord_def split: option.splits)
    have a: "r = \<lparr>fs_pipelineId = fst key, fs_start = nodes p ! snd key,
               fs_end = nodes p ! Suc (snd key), fs_status = ''flowing'',
               fs_sourceTank = fs_sourceTank r\<rparr>"
      using key(2) p by (simp add: flowingRecord_def)
    have b: "r' = \<lparr>fs_pipelineId = fst key, fs_start = nodes p ! snd key,
               fs_end = nodes p ! Suc (snd key), fs_status = ''flowing'',
               fs_sourceTank = fs_sourceTank r'\<rparr>"
      using r'(2) p by (simp add: flowingRecord_def)
    have sel: "fs_pipelineId r = fst key" "fs_start r = nodes p ! snd key"
        "fs_end r = nodes p ! Suc (snd key)"
      by (subst a, simp)+
    have sel': "fs_pipelineId r' = fst key" "fs_start r' = nodes p ! snd key"
        "fs_end r' = nodes p ! Suc (snd key)"
      by (subst b, simp)+
    show ?thesis using r'(1) sel sel' by auto
  qed
  show ?thesis using keys recs by blast
qed

theorem monotonic_source_when_complete_witness:
  "set [exTank] \<subseteq> set [exTank, exTankMid]
   \<and> queue (finalState flatDistance (Some [exValve]) [exTank, exTankMid] [exPipeline]) = []
   \<and> visitedSegments (finalState flatDistance (Some [exValve]) [exTank] [exPipeline]) = [(1, 0)]
   \<and> visitedSegments (finalState flatDistance (Some [exValve]) [exTank, exTankMid] [exPipeline])
       = [(1, 0)]
   \<and> set (visitedSegments (finalState flatDistance (Some [exValve]) [exTank] [exPipeline]))
       \<subseteq> set (visitedSegments
             (finalState flatDistance (Some [exValve]) [exTank, exTankMid] [exPipeline]))"
proof -
  have more: "set [exTank] \<subseteq> set [exTank, exTankMid]" by simp
  have complete: "queue (finalState flatDistance (Some [exValve]) [exTank, exTankMid]
      [exPipeline]) = []"
    by (simp add: ex_two_tanks_finalState)
  from monotonic_source_when_complete[OF more complete] more complete
  show ?thesis
    by (simp add: ex_two_tanks_finalState ex_finalState)
qed

end
